theory Spec2Isabelle
  imports Complex_Main
begin

section \<open>Data model of \<open>LotteryAnalyzer\<close>\<close>

text \<open>
  A stored result is the Python dict \<^verbatim>\<open>{'regular': [...], 'hot': h}\<close>; Python integers are
  unbounded, hence \<open>int\<close>. The analyzer's only mutable attribute is
  \<^verbatim>\<open>historical_results\<close>, a list in insertion order; \<^verbatim>\<open>max_number\<close> and
  \<^verbatim>\<open>hot_number_max\<close> are set once in \<^verbatim>\<open>__init__\<close> and never assigned again, so they
  are constants here.
\<close>

record draw =
  regular :: "int list"
  hot :: int

type_synonym store = "draw list"

definition max_number :: int where
  "max_number = 43"

definition hot_number_max :: int where
  "hot_number_max = 16"

text \<open>
  How an operation can end without its structured result. \<open>ValidationError\<close> is the
  \<^verbatim>\<open>ValueError\<close> raised by \<^verbatim>\<open>add_result\<close>; \<open>InsufficientDataError\<close>,
  \<open>EmptyStoreError\<close> and \<open>NoDifferences\<close> are the message strings the analyses return
  in place of a dict; \<open>IndexError\<close>, \<open>KeyError\<close> and \<open>TypeError\<close> are the Python
  exceptions of an out-of-range list index, a missing dict key and the subscript of a string.
\<close>

datatype error =
    ValidationError
  | InsufficientDataError
  | EmptyStoreError
  | NoDifferences
  | IndexError
  | KeyError
  | TypeError

section \<open>\<open>add_result\<close>\<close>

definition add_result :: "int list \<Rightarrow> int \<Rightarrow> store \<Rightarrow> error + store" where
  "add_result regular_numbers hot_number st =
     (if length regular_numbers \<noteq> 5 then Inl ValidationError
      else if \<exists>num \<in> set regular_numbers. num < 0 \<or> num > max_number then Inl ValidationError
      else if hot_number < 1 \<or> hot_number > hot_number_max then Inl ValidationError
      else if card (set regular_numbers) \<noteq> length regular_numbers then Inl ValidationError
      else Inr (st @ [\<lparr>regular = sort regular_numbers, hot = hot_number\<rparr>]))"

text \<open>A run of appends, as the caller performs them; the first rejected one ends the run.\<close>

fun add_results :: "(int list \<times> int) list \<Rightarrow> store \<Rightarrow> error + store" where
  "add_results [] st = Inr st"
| "add_results ((r, h) # rest) st =
     (case add_result r h st of Inl e \<Rightarrow> Inl e | Inr st' \<Rightarrow> add_results rest st')"

text \<open>The shape every stored draw has: what \<open>add_result\<close> checked, and sorted.\<close>

definition draw_ok :: "draw \<Rightarrow> bool" where
  "draw_ok d \<longleftrightarrow>
     length (regular d) = 5 \<and> distinct (regular d) \<and> sorted (regular d) \<and>
     list_all (\<lambda>num. 0 \<le> num \<and> num \<le> max_number) (regular d) \<and>
     1 \<le> hot d \<and> hot d \<le> hot_number_max"

definition store_ok :: "store \<Rightarrow> bool" where
  "store_ok st \<longleftrightarrow> list_all draw_ok st"

section \<open>\<open>analyze_frequency\<close>\<close>

text \<open>
  A \<^verbatim>\<open>Counter\<close> is a dict, which keeps its keys in first-insertion order: an association
  list with one entry per key. \<^verbatim>\<open>update(iterable)\<close> adds one to each element's count in
  turn, a new key going to the end.
\<close>

type_synonym counter = "(int \<times> nat) list"

fun counter_incr :: "int \<Rightarrow> counter \<Rightarrow> counter" where
  "counter_incr k [] = [(k, 1)]"
| "counter_incr k ((k', c) # rest) =
     (if k = k' then (k', Suc c) # rest else (k', c) # counter_incr k rest)"

definition counter_update :: "counter \<Rightarrow> int list \<Rightarrow> counter" where
  "counter_update cnt xs = foldl (\<lambda>c k. counter_incr k c) cnt xs"

record frequency =
  freq_regular :: counter
  freq_hot :: counter

definition analyze_frequency :: "store \<Rightarrow> frequency" where
  "analyze_frequency st =
     foldl (\<lambda>f result.
              \<lparr>freq_regular = counter_update (freq_regular f) (regular result),
               freq_hot = counter_update (freq_hot f) [hot result]\<rparr>)
           \<lparr>freq_regular = [], freq_hot = []\<rparr> st"

text \<open>
  \<^verbatim>\<open>most_common(n)\<close> is \<^verbatim>\<open>heapq.nlargest(n, items, key=count)\<close>, which is
  \<^verbatim>\<open>sorted(items, key=count, reverse=True)[:n]\<close>: a stable sort by descending count, so
  equal counts stay in insertion order. \<open>sort_key\<close> is a stable insertion sort.
\<close>

definition most_common :: "nat \<Rightarrow> counter \<Rightarrow> (int \<times> nat) list" where
  "most_common n cnt = take n (sort_key (\<lambda>kc. - int (snd kc)) cnt)"

section \<open>\<open>analyze_patterns\<close>\<close>

record patterns =
  sum_regular :: "int list"
  odd_even_ratio :: "rat list"
  range_distribution :: "nat list list"
  consecutive_numbers :: "bool list"
  hot_correlation :: "bool list"

text \<open>
  \<^verbatim>\<open>ranges[i] += 1\<close> with Python's indexing: a negative index counts from the end, and an
  index outside the list raises.
\<close>

definition list_incr :: "int \<Rightarrow> nat list \<Rightarrow> error + nat list" where
  "list_incr i xs =
     (if 0 \<le> i \<and> i < int (length xs) then Inr (xs[nat i := Suc (xs ! nat i)])
      else if - int (length xs) \<le> i \<and> i < 0
        then Inr (xs[nat (int (length xs) + i) := Suc (xs ! nat (int (length xs) + i))])
      else Inl IndexError)"

fun range_counts :: "int list \<Rightarrow> nat list \<Rightarrow> error + nat list" where
  "range_counts [] ranges = Inr ranges"
| "range_counts (num # rest) ranges =
     (case list_incr (min 3 (num div 11)) ranges of
        Inl e \<Rightarrow> Inl e
      | Inr ranges' \<Rightarrow> range_counts rest ranges')"

text \<open>The scan for two neighbours that differ by one, low to high, stopping at the first.\<close>

fun has_consecutive :: "int list \<Rightarrow> bool" where
  "has_consecutive (a # b # rest) = (if b - a = 1 then True else has_consecutive (b # rest))"
| "has_consecutive _ = False"

fun patterns_loop :: "draw list \<Rightarrow> patterns \<Rightarrow> error + patterns" where
  "patterns_loop [] pats = Inr pats"
| "patterns_loop (result # rest) pats =
     (let odd_count = length (filter (\<lambda>num. num mod 2 = 1) (regular result))
      in case range_counts (regular result) [0, 0, 0, 0] of
           Inl e \<Rightarrow> Inl e
         | Inr ranges \<Rightarrow>
             patterns_loop rest
               \<lparr>sum_regular = sum_regular pats @ [sum_list (regular result)],
                odd_even_ratio = odd_even_ratio pats @ [of_nat odd_count / 5],
                range_distribution = range_distribution pats @ [ranges],
                consecutive_numbers =
                  consecutive_numbers pats @ [has_consecutive (sort (regular result))],
                hot_correlation = hot_correlation pats @ [hot result \<in> set (regular result)]\<rparr>)"

definition analyze_patterns :: "store \<Rightarrow> error + patterns" where
  "analyze_patterns st =
     (if length st < 2 then Inl InsufficientDataError
      else patterns_loop st
             \<lparr>sum_regular = [], odd_even_ratio = [], range_distribution = [],
              consecutive_numbers = [], hot_correlation = []\<rparr>)"

section \<open>\<open>chaos_theory_analysis\<close>\<close>

text \<open>\<^verbatim>\<open>math.log\<close> and the float division are taken in the reals.\<close>

record chaos =
  lyapunov_estimate :: real
  is_chaotic :: bool

definition total_numbers :: "store \<Rightarrow> int list" where
  "total_numbers st = foldl (\<lambda>acc result. acc @ regular result @ [hot result]) [] st"

fun differences :: "int list \<Rightarrow> int list" where
  "differences (a # b # rest) = \<bar>b - a\<bar> # differences (b # rest)"
| "differences _ = []"

definition chaos_theory_analysis :: "store \<Rightarrow> error + chaos" where
  "chaos_theory_analysis st =
     (if length st < 3 then Inl InsufficientDataError
      else let ds = differences (total_numbers st)
           in if ds = [] then Inl NoDifferences
              else let est = sum_list (map (\<lambda>d. if d \<noteq> 0 then ln (real_of_int \<bar>d\<bar>) else 0) ds)
                               / real (length ds)
                   in Inr \<lparr>lyapunov_estimate = est, is_chaotic = (est > 0)\<rparr>)"

section \<open>\<open>enigma_inspired_analysis\<close>\<close>

text \<open>
  The \<^verbatim>\<open>transformation\<close> dict is filled for \<^verbatim>\<open>i\<close> in \<^verbatim>\<open>range(max_number + 1)\<close>: an
  association list with the keys in that order. Reading a key it does not hold raises.
\<close>

record enigma =
  transformation :: "(int \<times> int) list"
  transformed_results :: "int list list"

fun lookup_each :: "(int \<times> int) list \<Rightarrow> int list \<Rightarrow> error + int list" where
  "lookup_each tr [] = Inr []"
| "lookup_each tr (num # rest) =
     (case map_of tr num of
        None \<Rightarrow> Inl KeyError
      | Some v \<Rightarrow> (case lookup_each tr rest of Inl e \<Rightarrow> Inl e | Inr vs \<Rightarrow> Inr (v # vs)))"

fun transform_each :: "(int \<times> int) list \<Rightarrow> draw list \<Rightarrow> error + int list list" where
  "transform_each tr [] = Inr []"
| "transform_each tr (result # rest) =
     (case lookup_each tr (regular result) of
        Inl e \<Rightarrow> Inl e
      | Inr t \<Rightarrow> (case transform_each tr rest of Inl e \<Rightarrow> Inl e | Inr ts \<Rightarrow> Inr (t # ts)))"

definition enigma_inspired_analysis :: "store \<Rightarrow> error + enigma" where
  "enigma_inspired_analysis st =
     (if st = [] then Inl EmptyStoreError
      else let last_results = regular (last st);
               tr = map (\<lambda>i. (i, (i + sum_list last_results) mod (max_number + 1)))
                      [0..max_number]
           in case transform_each tr st of
                Inl e \<Rightarrow> Inl e
              | Inr ts \<Rightarrow> Inr \<lparr>transformation = tr, transformed_results = ts\<rparr>)"

section \<open>The random source\<close>

text \<open>
  The module-level generator is an unknown sequence of raw draws; \<open>src k\<close> is the \<open>k\<close>-th
  one and the position \<open>p\<close> of the next unused draw is passed along. Both library calls
  take one raw draw: \<^verbatim>\<open>randint(a, b)\<close> is \<^verbatim>\<open>a + randbelow(b - a + 1)\<close> and
  \<^verbatim>\<open>choice(seq)\<close> is \<^verbatim>\<open>seq[randbelow(len(seq))]\<close>, raising \<^verbatim>\<open>IndexError\<close> on an empty
  sequence. \<^verbatim>\<open>randbelow(n)\<close> is the raw draw reduced modulo \<open>n\<close>, so every value below
  \<open>n\<close> is the outcome of some source.
\<close>

type_synonym rng = "nat \<Rightarrow> nat"

definition randint :: "rng \<Rightarrow> nat \<Rightarrow> int \<Rightarrow> int \<Rightarrow> int" where
  "randint src p a b = a + int (src p mod nat (b - a + 1))"

definition choice :: "rng \<Rightarrow> nat \<Rightarrow> 'a list \<Rightarrow> error + 'a" where
  "choice src p xs = (if xs = [] then Inl IndexError else Inr (xs ! (src p mod length xs)))"

section \<open>\<open>predict_next_result\<close>\<close>

text \<open>
  \<^verbatim>\<open>avg_range\<close>: the four bucket totals over all histograms, each divided by the number of
  histograms. Every histogram is \<^verbatim>\<open>[0, 0, 0, 0]\<close> after some increments, so \<^verbatim>\<open>dist[i]\<close>
  is in range for \<^verbatim>\<open>i\<close> below 4.
\<close>

definition avg_range :: "nat list list \<Rightarrow> rat list" where
  "avg_range dists =
     map (\<lambda>r. of_nat r / of_nat (length dists))
       (foldl (\<lambda>acc dist. map (\<lambda>i. acc ! i + dist ! i) [0..<4]) [0, 0, 0, 0] dists)"

text \<open>\<^verbatim>\<open>int(x)\<close> cuts a float towards zero; the averages are not negative.\<close>

definition ranges_to_pick :: "rat list \<Rightarrow> int list" where
  "ranges_to_pick avg =
     concat (map (\<lambda>i. replicate (max 1 (nat \<lfloor>avg ! i * 2\<rfloor>)) (int i)) [0..<4])"

text \<open>Three draws from the most frequent numbers, each skipped when that list is empty.\<close>

fun pick_frequent :: "rng \<Rightarrow> nat \<Rightarrow> int list \<Rightarrow> nat \<Rightarrow> int set \<Rightarrow> error + (int set \<times> nat)" where
  "pick_frequent src p mcr 0 cs = Inr (cs, p)"
| "pick_frequent src p mcr (Suc k) cs =
     (if mcr \<noteq> [] then
        (case choice src p mcr of
           Inl e \<Rightarrow> Inl e
         | Inr num \<Rightarrow> pick_frequent src (Suc p) mcr k (insert num cs))
      else pick_frequent src p mcr k cs)"

text \<open>The inner \<^verbatim>\<open>while attempts < 10\<close> loop of one slot.\<close>

function try_range :: "rng \<Rightarrow> nat \<Rightarrow> int \<Rightarrow> int \<Rightarrow> nat \<Rightarrow> int set \<Rightarrow> int set \<times> nat" where
  "try_range src p min_val max_val attempts cs =
     (if attempts < 10 then
        (if randint src p min_val max_val \<notin> cs
         then (insert (randint src p min_val max_val) cs, Suc p)
         else try_range src (Suc p) min_val max_val (attempts + 1) cs)
      else (cs, p))"
  by pat_completeness auto
termination
  by (relation "measure (\<lambda>(src, p, min_val, max_val, attempts, cs). 10 - attempts)") auto

declare try_range.simps [simp del]

text \<open>The \<^verbatim>\<open>for _ in range(nums_needed)\<close> loop with its \<^verbatim>\<open>break\<close>.\<close>

fun fill_ranges :: "rng \<Rightarrow> nat \<Rightarrow> int list \<Rightarrow> nat \<Rightarrow> int set \<Rightarrow> error + (int set \<times> nat)" where
  "fill_ranges src p rtp 0 cs = Inr (cs, p)"
| "fill_ranges src p rtp (Suc k) cs =
     (if card cs \<ge> 5 then Inr (cs, p)
      else case choice src p rtp of
             Inl e \<Rightarrow> Inl e
           | Inr range_idx \<Rightarrow>
               (let min_val = range_idx * 11;
                    max_val = min max_number ((range_idx + 1) * 11 - 1);
                    (cs', p') = try_range src (Suc p) min_val max_val 0 cs
                in fill_ranges src p' rtp k cs'))"

text \<open>
  The top-up loop \<^verbatim>\<open>while len(candidate_numbers) < 5\<close> has no bound of its own: \<open>None\<close> is
  the run that never leaves it.
\<close>

partial_function (option) top_up :: "rng \<Rightarrow> nat \<Rightarrow> int set \<Rightarrow> (int set \<times> nat) option" where
  "top_up src p cs =
     (if card cs < 5 then top_up src (Suc p) (insert (randint src p 0 max_number) cs)
      else Some (cs, p))"

declare top_up.simps [code]

definition pick_hot :: "rng \<Rightarrow> nat \<Rightarrow> int list \<Rightarrow> error + int" where
  "pick_hot src p mch =
     (if mch \<noteq> [] then choice src p mch else Inr (randint src p 1 hot_number_max))"

text \<open>
  One pass of the body of \<^verbatim>\<open>for _ in range(num_predictions)\<close>. The order in which
  \<^verbatim>\<open>list(candidate_numbers)\<close> enumerates the set is the interpreter's; the ascending one
  stands for it here, and \<^verbatim>\<open>[:5]\<close> keeps its first five.
\<close>

definition predict_one ::
    "rng \<Rightarrow> nat \<Rightarrow> int list \<Rightarrow> int list \<Rightarrow> rat list \<Rightarrow> (error + (draw \<times> nat)) option" where
  "predict_one src p mcr mch avg =
     (case pick_frequent src p mcr 3 {} of
        Inl e \<Rightarrow> Some (Inl e)
      | Inr (cs1, p1) \<Rightarrow>
          (let nums_needed = 5 - card cs1
           in case fill_ranges src p1 (ranges_to_pick avg) nums_needed cs1 of
                Inl e \<Rightarrow> Some (Inl e)
              | Inr (cs2, p2) \<Rightarrow>
                  (case top_up src p2 cs2 of
                     None \<Rightarrow> None
                   | Some (cs3, p3) \<Rightarrow>
                       (let final_numbers = sort (take 5 (sorted_list_of_set cs3))
                        in case pick_hot src p3 mch of
                             Inl e \<Rightarrow> Some (Inl e)
                           | Inr hot_number \<Rightarrow>
                               Some (Inr (\<lparr>regular = final_numbers, hot = hot_number\<rparr>,
                                          Suc p3))))))"

fun predict_loop ::
    "rng \<Rightarrow> nat \<Rightarrow> int list \<Rightarrow> int list \<Rightarrow> rat list \<Rightarrow> nat \<Rightarrow> draw list \<Rightarrow>
     (error + draw list) option" where
  "predict_loop src p mcr mch avg 0 predictions = Some (Inr predictions)"
| "predict_loop src p mcr mch avg (Suc n) predictions =
     (case predict_one src p mcr mch avg of
        None \<Rightarrow> None
      | Some (Inl e) \<Rightarrow> Some (Inl e)
      | Some (Inr (pred, p')) \<Rightarrow> predict_loop src p' mcr mch avg n (predictions @ [pred]))"

text \<open>
  \<^verbatim>\<open>predict_next_result\<close>, with the random source and the position of its next draw as
  arguments. \<^verbatim>\<open>avg_sum\<close> and \<^verbatim>\<open>avg_odd_ratio\<close> are computed and never read; their
  divisor is the number of stored draws, at least 3 there. Subscripting the message string
  that \<^verbatim>\<open>analyze_patterns\<close> returns below two draws would raise \<^verbatim>\<open>TypeError\<close>.
\<close>

definition most_common_regular :: "store \<Rightarrow> int list" where
  "most_common_regular st = map fst (most_common 10 (freq_regular (analyze_frequency st)))"

definition most_common_hot :: "store \<Rightarrow> int list" where
  "most_common_hot st = map fst (most_common 3 (freq_hot (analyze_frequency st)))"

definition predict_next_result :: "store \<Rightarrow> nat \<Rightarrow> rng \<Rightarrow> nat \<Rightarrow> (error + draw list) option" where
  "predict_next_result st num_predictions src p =
     (if length st < 3 then Some (Inl InsufficientDataError)
      else case analyze_patterns st of
             Inl InsufficientDataError \<Rightarrow> Some (Inl TypeError)
           | Inl e \<Rightarrow> Some (Inl e)
           | Inr pats \<Rightarrow>
               predict_loop src p (most_common_regular st) (most_common_hot st)
                 (avg_range (range_distribution pats)) num_predictions [])"

section \<open>Auxiliary definitions for the statements\<close>

text \<open>
  \<^verbatim>\<open>historical_results\<close> after a call of \<^verbatim>\<open>add_result\<close>: every \<^verbatim>\<open>raise\<close> of the
  method comes before its only write, the final \<^verbatim>\<open>append\<close>.
\<close>

definition store_after_add :: "int list \<Rightarrow> int \<Rightarrow> store \<Rightarrow> store" where
  "store_after_add r h st = (case add_result r h st of Inl e \<Rightarrow> st | Inr st' \<Rightarrow> st')"

text \<open>The three draws of the worked example.\<close>

definition spec_example :: store where
  "spec_example =
     [\<lparr>regular = [5, 12, 23, 31, 40], hot = 3\<rparr>,
      \<lparr>regular = [2, 12, 19, 31, 38], hot = 7\<rparr>,
      \<lparr>regular = [5, 18, 23, 29, 40], hot = 3\<rparr>]"

text \<open>
  The estimate as the specification words it: the stream is every draw's five ascending
  regulars followed by its hot value, draw after draw; the differences are the absolute
  differences of neighbours; a zero difference adds 0, any other its logarithm; the total is
  divided by the number of differences.
\<close>

definition spec_stream :: "store \<Rightarrow> int list" where
  "spec_stream st = concat (map (\<lambda>d. sort (regular d) @ [hot d]) st)"

definition spec_differences :: "int list \<Rightarrow> int list" where
  "spec_differences s = map (\<lambda>i. \<bar>s ! Suc i - s ! i\<bar>) [0..<length s - 1]"

definition spec_lyapunov :: "store \<Rightarrow> real" where
  "spec_lyapunov st =
     (\<Sum>d\<leftarrow>spec_differences (spec_stream st). if d = 0 then 0 else ln (real_of_int d))
       / real (length (spec_differences (spec_stream st)))"

text \<open>
  A call of one of the four analysis methods on the analyzer object: its return value and
  \<^verbatim>\<open>historical_results\<close> after the call. None of the methods assigns to the attribute
  or changes a stored list in place (\<^verbatim>\<open>sorted\<close> and \<^verbatim>\<open>extend\<close> copy).
\<close>

datatype analysis = AnalyzeFrequency | AnalyzePatterns | ChaosTheoryAnalysis | EnigmaInspiredAnalysis

datatype outcome =
    FrequencyResult frequency
  | PatternsResult "error + patterns"
  | ChaosResult "error + chaos"
  | EnigmaResult "error + enigma"

fun call_analysis :: "analysis \<Rightarrow> store \<Rightarrow> outcome \<times> store" where
  "call_analysis AnalyzeFrequency st = (FrequencyResult (analyze_frequency st), st)"
| "call_analysis AnalyzePatterns st = (PatternsResult (analyze_patterns st), st)"
| "call_analysis ChaosTheoryAnalysis st = (ChaosResult (chaos_theory_analysis st), st)"
| "call_analysis EnigmaInspiredAnalysis st = (EnigmaResult (enigma_inspired_analysis st), st)"

text \<open>
  A random source is fair when, from every position on, the full-range draw
  \<^verbatim>\<open>randint(0, max_number)\<close> still produces each value of the range. \<open>stuck_source\<close>
  returns the same raw draw for ever; \<open>counting_source\<close> counts up.
\<close>

definition fair :: "rng \<Rightarrow> bool" where
  "fair src \<longleftrightarrow> (\<forall>p. \<forall>v \<in> {0..max_number}. \<exists>q \<ge> p. randint src q 0 max_number = v)"

definition stuck_source :: rng where
  "stuck_source k = 0"

definition counting_source :: rng where
  "counting_source k = k"

text \<open>The range histograms of the three example draws.\<close>

definition spec_example_histograms :: "nat list list" where
  "spec_example_histograms = [[1, 1, 2, 1], [1, 2, 1, 1], [1, 1, 2, 1]]"

section \<open>Properties of the store\<close>

lemma add_result_Inr_iff:
  "add_result r h st = Inr st' \<longleftrightarrow>
     length r = 5 \<and> (\<forall>num \<in> set r. 0 \<le> num \<and> num \<le> 43) \<and> 1 \<le> h \<and> h \<le> 16 \<and> distinct r \<and>
     st' = st @ [\<lparr>regular = sort r, hot = h\<rparr>]"
proof (cases "length r = 5 \<and> (\<forall>num \<in> set r. 0 \<le> num \<and> num \<le> 43) \<and> 1 \<le> h \<and> h \<le> 16 \<and> distinct r")
  case True
  then have "card (set r) = length r"
    by (simp add: distinct_card)
  with True have "add_result r h st = Inr (st @ [\<lparr>regular = sort r, hot = h\<rparr>])"
    unfolding add_result_def max_number_def hot_number_max_def by (auto simp: not_less)
  with True show ?thesis by auto
next
  case False
  have "card (set r) = length r \<Longrightarrow> distinct r"
    by (rule card_distinct)
  with False have "add_result r h st = Inl ValidationError"
    unfolding add_result_def max_number_def hot_number_max_def by (auto simp: not_le)
  with False show ?thesis by auto
qed

lemma add_result_store_ok:
  assumes "add_result r h st = Inr st'" and "store_ok st"
  shows "store_ok st'"
  using assms
  by (auto simp: add_result_Inr_iff store_ok_def draw_ok_def max_number_def hot_number_max_def
      list_all_iff)

lemma add_results_store_ok:
  "add_results ins st = Inr st' \<Longrightarrow> store_ok st \<Longrightarrow> store_ok st'"
proof (induction ins arbitrary: st)
  case Nil
  then show ?case by simp
next
  case (Cons a ins)
  obtain r h where a: "a = (r, h)" by (cases a)
  from Cons.prems(1) obtain st1 where
    s1: "add_result r h st = Inr st1" and s2: "add_results ins st1 = Inr st'"
    by (auto simp: a split: sum.splits)
  from add_result_store_ok[OF s1 Cons.prems(2)] Cons.IH[OF s2] show ?case by simp
qed

lemma add_results_append:
  "add_results (xs @ ys) st =
     (case add_results xs st of Inl e \<Rightarrow> Inl e | Inr st' \<Rightarrow> add_results ys st')"
proof (induction xs arbitrary: st)
  case Nil
  then show ?case by simp
next
  case (Cons a xs)
  obtain r h where "a = (r, h)" by (cases a)
  with Cons.IH show ?case by (simp split: sum.splits)
qed

text \<open>Every store of well-formed draws is built by appending its draws in order.\<close>

lemma store_ok_reachable:
  "store_ok st \<Longrightarrow> add_results (map (\<lambda>d. (regular d, hot d)) st) [] = Inr st"
proof (induction st rule: rev_induct)
  case Nil
  then show ?case by simp
next
  case (snoc d st)
  then have ok: "store_ok st" and d: "draw_ok d"
    by (simp_all add: store_ok_def)
  from d have "sort (regular d) = regular d"
    by (simp add: draw_ok_def sort_key_id_if_sorted)
  then have "\<lparr>regular = sort (regular d), hot = hot d\<rparr> = d" by simp
  moreover from d have "length (regular d) = 5" "distinct (regular d)"
    "\<forall>num \<in> set (regular d). 0 \<le> num \<and> num \<le> 43" "1 \<le> hot d" "hot d \<le> 16"
    by (simp_all add: draw_ok_def list_all_iff max_number_def hot_number_max_def)
  ultimately have "add_result (regular d) (hot d) st = Inr (st @ [d])"
    by (simp add: add_result_Inr_iff)
  with snoc.IH[OF ok] show ?case by (simp add: add_results_append)
qed

section \<open>Appending\<close>

lemma add_result_cases:
  "add_result r h st = Inl ValidationError \<or>
   add_result r h st = Inr (st @ [\<lparr>regular = sort r, hot = h\<rparr>])"
  by (simp add: add_result_def)

lemma add_result_Inl_iff:
  "add_result r h st = Inl ValidationError \<longleftrightarrow>
     length r \<noteq> 5 \<or> (\<exists>num \<in> set r. num < 0 \<or> 43 < num) \<or> h < 1 \<or> 16 < h \<or> \<not> distinct r"
proof -
  have "add_result r h st = Inl ValidationError \<longleftrightarrow> (\<forall>st'. add_result r h st \<noteq> Inr st')"
    using add_result_cases[of r h st] by auto
  then show ?thesis
    by (auto simp: add_result_Inr_iff not_le not_less)
qed

text \<open>
  C3: \<open>add_result\<close> raises exactly when the regular sequence does not have length 5,
  or a regular value is outside 0..43, or the hot value is outside 1..16, or a regular value
  repeats. When it raises, the store is the one before the call; when it does not, the store
  is the old one with the sorted draw at its end, one longer.
\<close>

theorem add_result_validation:
  "(add_result r h st = Inl ValidationError \<longleftrightarrow>
      length r \<noteq> 5 \<or> (\<exists>num \<in> set r. num < 0 \<or> 43 < num) \<or> h < 1 \<or> 16 < h \<or> \<not> distinct r) \<and>
   (add_result r h st = Inl ValidationError \<longrightarrow> store_after_add r h st = st) \<and>
   (add_result r h st \<noteq> Inl ValidationError \<longrightarrow>
      add_result r h st = Inr (store_after_add r h st) \<and>
      store_after_add r h st = st @ [\<lparr>regular = sort r, hot = h\<rparr>] \<and>
      length (store_after_add r h st) = length st + 1)"
proof (intro conjI impI)
  show "add_result r h st = Inl ValidationError \<longleftrightarrow>
      length r \<noteq> 5 \<or> (\<exists>num \<in> set r. num < 0 \<or> 43 < num) \<or> h < 1 \<or> 16 < h \<or> \<not> distinct r"
    by (rule add_result_Inl_iff)
next
  assume "add_result r h st = Inl ValidationError"
  then show "store_after_add r h st = st"
    by (simp add: store_after_add_def)
next
  assume "add_result r h st \<noteq> Inl ValidationError"
  with add_result_cases[of r h st]
  have ok: "add_result r h st = Inr (st @ [\<lparr>regular = sort r, hot = h\<rparr>])" by simp
  then show "add_result r h st = Inr (store_after_add r h st)"
    and "store_after_add r h st = st @ [\<lparr>regular = sort r, hot = h\<rparr>]"
    and "length (store_after_add r h st) = length st + 1"
    by (simp_all add: store_after_add_def)
qed

theorem add_result_validation_witness:
  "add_result [7, 7, 1, 2, 3] 4 spec_example = Inl ValidationError \<and>
   store_after_add [7, 7, 1, 2, 3] 4 spec_example = spec_example \<and>
   add_result [9, 4, 30, 1, 43] 16 spec_example \<noteq> Inl ValidationError \<and>
   store_after_add [9, 4, 30, 1, 43] 16 spec_example =
     spec_example @ [\<lparr>regular = [1, 4, 9, 30, 43], hot = 16\<rparr>] \<and>
   length (store_after_add [9, 4, 30, 1, 43] 16 spec_example) = length spec_example + 1"
  using add_result_validation[of "[7, 7, 1, 2, 3]" 4 spec_example]
    add_result_validation[of "[9, 4, 30, 1, 43]" 16 spec_example]
  by simp


lemma counter_incr_sum: "sum_list (map snd (counter_incr k c)) = Suc (sum_list (map snd c))"
  by (induction c) auto

lemma counter_update_sum:
  "sum_list (map snd (counter_update c xs)) = sum_list (map snd c) + length xs"
  unfolding counter_update_def
  by (induction xs arbitrary: c) (simp_all add: counter_incr_sum)

lemma analyze_frequency_Nil: "analyze_frequency [] = \<lparr>freq_regular = [], freq_hot = []\<rparr>"
  by (simp add: analyze_frequency_def)

lemma analyze_frequency_snoc:
  "analyze_frequency (st @ [d]) =
     \<lparr>freq_regular = counter_update (freq_regular (analyze_frequency st)) (regular d),
      freq_hot = counter_update (freq_hot (analyze_frequency st)) [hot d]\<rparr>"
  by (simp add: analyze_frequency_def)

lemma frequency_sums:
  "store_ok st \<Longrightarrow>
     sum_list (map snd (freq_regular (analyze_frequency st))) = 5 * length st \<and>
     sum_list (map snd (freq_hot (analyze_frequency st))) = length st"
proof (induction st rule: rev_induct)
  case Nil
  then show ?case by (simp add: analyze_frequency_Nil)
next
  case (snoc d st)
  then have "store_ok st" and "length (regular d) = 5"
    by (simp_all add: store_ok_def draw_ok_def)
  with snoc.IH show ?case
    by (simp add: analyze_frequency_snoc counter_update_sum)
qed

lemma store_ok_Nil: "store_ok []"
  by (simp add: store_ok_def)

text \<open>
  C5: in a store built from the empty one by appends that all succeed, every stored regular
  list is ascending, the counts of \<open>freq_regular\<close> add up to five times the number of
  stored draws, and those of \<open>freq_hot\<close> to that number.
\<close>

theorem stored_sorted_and_counted:
  assumes "add_results ins [] = Inr st"
  shows "(\<forall>d \<in> set st. sorted (regular d)) \<and>
         sum_list (map snd (freq_regular (analyze_frequency st))) = 5 * length st \<and>
         sum_list (map snd (freq_hot (analyze_frequency st))) = length st"
proof -
  from add_results_store_ok[OF assms store_ok_Nil] have ok: "store_ok st" .
  then have "\<forall>d \<in> set st. sorted (regular d)"
    by (simp add: store_ok_def draw_ok_def list_all_iff)
  with frequency_sums[OF ok] show ?thesis by simp
qed

theorem stored_sorted_and_counted_witness:
  "add_results [([5, 12, 23, 31, 40], 3), ([38, 2, 12, 19, 31], 7), ([5, 18, 23, 29, 40], 3)] []
     = Inr spec_example \<and>
   list_all (\<lambda>d. sorted (regular d)) spec_example \<and>
   sum_list (map snd (freq_regular (analyze_frequency spec_example))) = 5 * length spec_example \<and>
   sum_list (map snd (freq_hot (analyze_frequency spec_example))) = length spec_example"
proof -
  have h: "add_results [([5, 12, 23, 31, 40], 3), ([38, 2, 12, 19, 31], 7),
      ([5, 18, 23, 29, 40], 3)] [] = Inr spec_example"
    by (simp add: add_result_def spec_example_def max_number_def hot_number_max_def)
  from stored_sorted_and_counted[OF h] h show ?thesis by (simp add: list_all_iff)
qed

section \<open>The chaos estimate\<close>

lemma total_numbers_concat:
  "total_numbers st = concat (map (\<lambda>d. regular d @ [hot d]) st)"
proof -
  have "foldl (\<lambda>acc result. acc @ regular result @ [hot result]) a st =
        a @ concat (map (\<lambda>d. regular d @ [hot d]) st)" for a
    by (induction st arbitrary: a) simp_all
  then show ?thesis by (simp add: total_numbers_def)
qed

lemma store_ok_sort_regular: "store_ok st \<Longrightarrow> d \<in> set st \<Longrightarrow> sort (regular d) = regular d"
  by (simp add: store_ok_def draw_ok_def list_all_iff sort_key_id_if_sorted)

lemma spec_stream_total_numbers: "store_ok st \<Longrightarrow> spec_stream st = total_numbers st"
  unfolding spec_stream_def total_numbers_concat
  by (rule arg_cong[where f = concat]) (simp add: store_ok_sort_regular)

lemma length_differences: "length (differences xs) = length xs - 1"
  by (induction xs rule: differences.induct) simp_all

lemma nth_differences:
  "i < length xs - 1 \<Longrightarrow> differences xs ! i = \<bar>xs ! Suc i - xs ! i\<bar>"
proof (induction xs arbitrary: i rule: differences.induct)
  case (1 a b rest)
  then show ?case by (cases i) simp_all
qed simp_all

lemma differences_spec: "differences xs = spec_differences xs"
  by (rule nth_equalityI) (simp_all add: spec_differences_def length_differences nth_differences)

lemma length_total_numbers: "store_ok st \<Longrightarrow> length (total_numbers st) = 6 * length st"
  unfolding total_numbers_concat
  by (induction st) (simp_all add: store_ok_def draw_ok_def)

lemma chaos_value:
  assumes "store_ok st" and "3 \<le> length st"
  shows "chaos_theory_analysis st =
           Inr \<lparr>lyapunov_estimate = spec_lyapunov st, is_chaotic = (0 < spec_lyapunov st)\<rparr> \<and>
         length (spec_differences (spec_stream st)) = 6 * length st - 1"
proof -
  let ?ds = "differences (total_numbers st)"
  have len: "length ?ds = 6 * length st - 1"
    by (simp add: length_differences length_total_numbers assms(1))
  with assms(2) have ne: "?ds \<noteq> []" by auto
  have eq: "spec_differences (spec_stream st) = ?ds"
    by (simp add: differences_spec spec_stream_total_numbers assms(1))
  have same: "(if d \<noteq> 0 then ln (real_of_int \<bar>d\<bar>) else 0) = (if d = 0 then 0 else ln (real_of_int d))"
    if "d \<in> set ?ds" for d
  proof -
    from that have "0 \<le> d"
      by (auto simp: differences_spec spec_differences_def)
    then show ?thesis by simp
  qed
  have "sum_list (map (\<lambda>d. if d \<noteq> 0 then ln (real_of_int \<bar>d\<bar>) else 0) ?ds) =
        (\<Sum>d\<leftarrow>?ds. if d = 0 then 0 else ln (real_of_int d))"
    by (rule arg_cong[where f = sum_list]) (simp add: same)
  then have est: "sum_list (map (\<lambda>d. if d \<noteq> 0 then ln (real_of_int \<bar>d\<bar>) else 0) ?ds)
                    / real (length ?ds) = spec_lyapunov st"
    by (simp add: spec_lyapunov_def eq)
  from assms(2) ne est have "chaos_theory_analysis st =
      Inr \<lparr>lyapunov_estimate = spec_lyapunov st, is_chaotic = (0 < spec_lyapunov st)\<rparr>"
    by (simp add: chaos_theory_analysis_def Let_def)
  with len eq show ?thesis by simp
qed

lemma store_ok_spec_example: "store_ok spec_example"
  by (simp add: store_ok_def draw_ok_def spec_example_def max_number_def hot_number_max_def)

text \<open>
  C6: on a store of at least three draws as \<open>add_result\<close> builds them,
  \<open>chaos_theory_analysis\<close> returns the estimate of the specification's wording, over all
  \<open>6 * length st - 1\<close> differences, and \<open>is_chaotic\<close> says whether that estimate is
  above 0.
\<close>

theorem chaos_estimate:
  assumes "store_ok st" and "3 \<le> length st"
  shows "chaos_theory_analysis st =
           Inr \<lparr>lyapunov_estimate = spec_lyapunov st, is_chaotic = (0 < spec_lyapunov st)\<rparr> \<and>
         length (spec_differences (spec_stream st)) = 6 * length st - 1"
  using assms by (rule chaos_value)

theorem chaos_estimate_witness:
  "store_ok spec_example \<and> 3 \<le> length spec_example \<and>
   chaos_theory_analysis spec_example =
     Inr \<lparr>lyapunov_estimate = spec_lyapunov spec_example,
          is_chaotic = (0 < spec_lyapunov spec_example)\<rparr> \<and>
   spec_differences (spec_stream spec_example) =
     [7, 11, 8, 9, 37, 1, 10, 7, 12, 7, 31, 2, 13, 5, 6, 11, 37]"
proof -
  have l: "3 \<le> length spec_example" by (simp add: spec_example_def)
  have "spec_differences (spec_stream spec_example) =
     [7, 11, 8, 9, 37, 1, 10, 7, 12, 7, 31, 2, 13, 5, 6, 11, 37]"
    by (simp add: spec_differences_def spec_stream_def spec_example_def upt_rec)
  with chaos_estimate[OF store_ok_spec_example l] store_ok_spec_example l show ?thesis by simp
qed

section \<open>The substitution table\<close>

lemma map_of_table:
  "map_of (map (\<lambda>i. (i, f i)) ks) k = (if k \<in> set ks then Some (f k) else None)"
  by (induction ks) auto

lemma lookup_each_table:
  "set xs \<subseteq> set ks \<Longrightarrow> lookup_each (map (\<lambda>i. (i, f i)) ks) xs = Inr (map f xs)"
  by (induction xs) (simp_all add: map_of_table)

lemma transform_each_table:
  "\<forall>d \<in> set ds. set (regular d) \<subseteq> set ks \<Longrightarrow>
   transform_each (map (\<lambda>i. (i, f i)) ks) ds = Inr (map (\<lambda>d. map f (regular d)) ds)"
  by (induction ds) (simp_all add: lookup_each_table)

lemma store_ok_regular_range:
  "store_ok st \<Longrightarrow> d \<in> set st \<Longrightarrow> set (regular d) \<subseteq> {0..43}"
  by (auto simp: store_ok_def draw_ok_def list_all_iff max_number_def)

text \<open>
  C7: on the empty store \<open>enigma_inspired_analysis\<close> reports that there is no data. On a
  non-empty store of well-formed draws it returns a table with the keys 0 to 43 in order,
  each \<open>i\<close> mapped to \<open>(i + S) mod 44\<close> for \<open>S\<close> the sum of the last draw's regulars,
  and for each stored draw, in store order, its regulars sent through that table. The result
  is a function of the store alone: the random source is no argument of it.
\<close>

theorem enigma_table:
  "enigma_inspired_analysis [] = Inl EmptyStoreError \<and>
   (store_ok st \<and> st \<noteq> [] \<longrightarrow>
      (\<exists>tr. enigma_inspired_analysis st =
              Inr \<lparr>transformation = tr,
                   transformed_results =
                     map (\<lambda>d. map (\<lambda>num. (num + sum_list (regular (last st))) mod 44) (regular d)) st\<rparr> \<and>
            map fst tr = [0..43] \<and>
            (\<forall>i. 0 \<le> i \<and> i \<le> 43 \<longrightarrow>
                 map_of tr i = Some ((i + sum_list (regular (last st))) mod 44))))"
proof (intro conjI impI)
  show "enigma_inspired_analysis [] = Inl EmptyStoreError"
    by (simp add: enigma_inspired_analysis_def)
next
  assume a: "store_ok st \<and> st \<noteq> []"
  let ?S = "sum_list (regular (last st))"
  let ?f = "\<lambda>i. (i + ?S) mod 44"
  let ?tr = "map (\<lambda>i. (i, ?f i)) [0..43]"
  from a have "\<forall>d \<in> set st. set (regular d) \<subseteq> set [0..43]"
    using store_ok_regular_range[of st] by auto
  then have "transform_each ?tr st = Inr (map (\<lambda>d. map ?f (regular d)) st)"
    by (rule transform_each_table)
  with a have "enigma_inspired_analysis st =
      Inr \<lparr>transformation = ?tr, transformed_results = map (\<lambda>d. map ?f (regular d)) st\<rparr>"
    by (simp add: enigma_inspired_analysis_def max_number_def Let_def)
  moreover have "map fst ?tr = [0..43]"
    by (simp add: comp_def)
  moreover have "\<forall>i. 0 \<le> i \<and> i \<le> 43 \<longrightarrow> map_of ?tr i = Some (?f i)"
    by (simp add: map_of_table)
  ultimately show "\<exists>tr. enigma_inspired_analysis st =
              Inr \<lparr>transformation = tr,
                   transformed_results = map (\<lambda>d. map ?f (regular d)) st\<rparr> \<and>
            map fst tr = [0..43] \<and>
            (\<forall>i. 0 \<le> i \<and> i \<le> 43 \<longrightarrow> map_of tr i = Some (?f i))"
    by blast
qed

theorem enigma_table_witness:
  "store_ok spec_example \<and> spec_example \<noteq> [] \<and>
   sum_list (regular (last spec_example)) = 115 \<and>
   (\<exists>tr. enigma_inspired_analysis spec_example =
      Inr \<lparr>transformation = tr,
           transformed_results = [[32, 39, 6, 14, 23], [29, 39, 2, 14, 21], [32, 1, 6, 12, 23]]\<rparr> \<and>
      map_of tr 0 = Some 27 \<and> map_of tr 43 = Some 26)"
proof -
  have ne: "spec_example \<noteq> []" and s: "sum_list (regular (last spec_example)) = 115"
    by (simp_all add: spec_example_def)
  have m: "map (\<lambda>d. map (\<lambda>num. (num + 115) mod 44) (regular d)) spec_example =
      [[32, 39, 6, 14, 23], [29, 39, 2, 14, 21], [32, 1, 6, 12, 23]]"
    by (simp add: spec_example_def)
  from enigma_table[of spec_example] store_ok_spec_example ne
  obtain tr where "enigma_inspired_analysis spec_example =
      Inr \<lparr>transformation = tr,
           transformed_results = map (\<lambda>d. map (\<lambda>num. (num + 115) mod 44) (regular d)) spec_example\<rparr>"
    and "\<forall>i. 0 \<le> i \<and> i \<le> 43 \<longrightarrow> map_of tr i = Some ((i + 115) mod 44)"
    unfolding s by blast
  then have "enigma_inspired_analysis spec_example =
      Inr \<lparr>transformation = tr,
           transformed_results = [[32, 39, 6, 14, 23], [29, 39, 2, 14, 21], [32, 1, 6, 12, 23]]\<rparr> \<and>
      map_of tr 0 = Some 27 \<and> map_of tr 43 = Some 26"
    unfolding m by simp
  with store_ok_spec_example ne s show ?thesis by blast
qed

section \<open>Analyses do not write\<close>

text \<open>
  C9: every analysis call leaves the store as it was, and the same call made again on the
  store it left returns the same result.
\<close>

theorem analyses_leave_store:
  "snd (call_analysis a st) = st \<and>
   fst (call_analysis a (snd (call_analysis a st))) = fst (call_analysis a st)"
  by (cases a) simp_all

section \<open>Most frequent numbers\<close>

lemma counter_incr_keys: "fst ` set (counter_incr k c) = insert k (fst ` set c)"
proof (induction c)
  case Nil
  then show ?case by simp
next
  case (Cons x c)
  obtain k' n where x: "x = (k', n)" by (cases x)
  show ?case
    by (cases "k = k'") (simp_all add: x Cons.IH insert_commute)
qed

lemma counter_incr_distinct: "distinct (map fst c) \<Longrightarrow> distinct (map fst (counter_incr k c))"
  by (induction c) (auto simp: counter_incr_keys)

lemma counter_update_keys: "fst ` set (counter_update c xs) = fst ` set c \<union> set xs"
  unfolding counter_update_def
  by (induction xs arbitrary: c) (simp_all add: counter_incr_keys)

lemma counter_update_distinct:
  "distinct (map fst c) \<Longrightarrow> distinct (map fst (counter_update c xs))"
  unfolding counter_update_def
  by (induction xs arbitrary: c) (simp_all add: counter_incr_distinct)

lemma frequency_keys:
  "fst ` set (freq_regular (analyze_frequency st)) = (\<Union>d \<in> set st. set (regular d)) \<and>
   fst ` set (freq_hot (analyze_frequency st)) = hot ` set st \<and>
   distinct (map fst (freq_regular (analyze_frequency st))) \<and>
   distinct (map fst (freq_hot (analyze_frequency st)))"
proof (induction st rule: rev_induct)
  case Nil
  then show ?case by (simp add: analyze_frequency_Nil)
next
  case (snoc d st)
  then show ?case
    by (simp add: analyze_frequency_snoc counter_update_keys counter_update_distinct Un_commute)
qed

lemma most_common_keys: "set (map fst (most_common n c)) \<subseteq> fst ` set c"
proof -
  have "set (most_common n c) \<subseteq> set c"
    unfolding most_common_def using set_take_subset[of n "sort_key (\<lambda>kc. - int (snd kc)) c"]
    by simp
  then show ?thesis by auto
qed

lemma most_common_length: "length (most_common n c) = min n (length c)"
  by (simp add: most_common_def min.commute)

lemma most_common_regular_range:
  assumes "store_ok st"
  shows "set (most_common_regular st) \<subseteq> {0..43}"
proof -
  have "set (most_common_regular st) \<subseteq> (\<Union>d \<in> set st. set (regular d))"
    unfolding most_common_regular_def
    using most_common_keys[of 10 "freq_regular (analyze_frequency st)"] frequency_keys[of st]
    by simp
  with store_ok_regular_range[OF assms] show ?thesis by blast
qed

lemma most_common_hot_range:
  assumes "store_ok st"
  shows "set (most_common_hot st) \<subseteq> {1..16}"
proof -
  have "set (most_common_hot st) \<subseteq> hot ` set st"
    unfolding most_common_hot_def
    using most_common_keys[of 3 "freq_hot (analyze_frequency st)"] frequency_keys[of st]
    by simp
  moreover from assms have "hot ` set st \<subseteq> {1..16}"
    by (auto simp: store_ok_def draw_ok_def list_all_iff hot_number_max_def)
  ultimately show ?thesis by blast
qed

lemma most_common_regular_length:
  assumes "store_ok st" and "st \<noteq> []"
  shows "5 \<le> length (most_common_regular st)"
proof -
  let ?c = "freq_regular (analyze_frequency st)"
  from assms(2) obtain d where d: "d \<in> set st" by (cases st) auto
  with assms(1) have "card (set (regular d)) = 5"
    by (simp add: store_ok_def draw_ok_def list_all_iff distinct_card)
  moreover have "set (regular d) \<subseteq> set (map fst ?c)"
    using d frequency_keys[of st] by auto
  ultimately have "5 \<le> card (set (map fst ?c))"
    using card_mono[of "set (map fst ?c)" "set (regular d)"] by simp
  also have "\<dots> \<le> length ?c"
    using card_length[of "map fst ?c"] by simp
  finally show ?thesis
    by (simp add: most_common_regular_def most_common_length)
qed

lemma most_common_hot_length:
  assumes "st \<noteq> []"
  shows "1 \<le> length (most_common_hot st)"
proof -
  let ?c = "freq_hot (analyze_frequency st)"
  from assms have "fst ` set ?c \<noteq> {}"
    using frequency_keys[of st] by simp
  then have "?c \<noteq> []" by auto
  then have "1 \<le> length ?c" by (cases ?c) simp_all
  then show ?thesis
    by (simp add: most_common_hot_def most_common_length)
qed

section \<open>The candidate set stays in range\<close>

lemma randint_range:
  assumes "a \<le> b"
  shows "a \<le> randint src p a b \<and> randint src p a b \<le> b"
proof -
  from assms have "0 < nat (b - a + 1)" by simp
  then have "src p mod nat (b - a + 1) < nat (b - a + 1)" by (rule mod_less_divisor)
  then have "int (src p mod nat (b - a + 1)) < b - a + 1" by linarith
  then show ?thesis by (simp add: randint_def)
qed

lemma finite_candidates: "cs \<subseteq> {0..43::int} \<Longrightarrow> finite cs"
  by (rule finite_subset[where B = "{0..43}"]) simp_all

lemma card_insert_candidates: "cs \<subseteq> {0..43::int} \<Longrightarrow> card (insert x cs) \<le> Suc (card cs)"
  by (simp add: card_insert_if finite_candidates)

lemma choice_member: "xs \<noteq> [] \<Longrightarrow> \<exists>x. choice src p xs = Inr x \<and> x \<in> set xs"
  by (simp add: choice_def)

lemma pick_frequent_ok:
  "set mcr \<subseteq> {0..43} \<Longrightarrow> cs \<subseteq> {0..43} \<Longrightarrow>
   \<exists>cs' p'. pick_frequent src p mcr k cs = Inr (cs', p') \<and> cs' \<subseteq> {0..43} \<and>
     card cs' \<le> card cs + k"
proof (induction k arbitrary: p cs)
  case 0
  then show ?case by simp
next
  case (Suc k)
  show ?case
  proof (cases "mcr = []")
    case True
    with Suc.IH[OF Suc.prems, of p] show ?thesis by auto
  next
    case False
    from choice_member[OF False] obtain num where
      c: "choice src p mcr = Inr num" and m: "num \<in> set mcr" by blast
    from m Suc.prems have sub: "insert num cs \<subseteq> {0..43}" by auto
    from Suc.IH[OF Suc.prems(1) sub, of "Suc p"] obtain cs' p' where
      r: "pick_frequent src (Suc p) mcr k (insert num cs) = Inr (cs', p')"
      and s: "cs' \<subseteq> {0..43}" and k: "card cs' \<le> card (insert num cs) + k"
      by blast
    from k card_insert_candidates[OF Suc.prems(2), of num]
    have "card cs' \<le> card cs + Suc k" by simp
    with False c r s show ?thesis by simp
  qed
qed

lemma try_range_ok:
  "0 \<le> lo \<Longrightarrow> lo \<le> hi \<Longrightarrow> hi \<le> 43 \<Longrightarrow> cs \<subseteq> {0..43} \<Longrightarrow>
   try_range src p lo hi a cs = (cs', p') \<Longrightarrow>
   cs' \<subseteq> {0..43} \<and> card cs' \<le> Suc (card cs)"
proof (induction src p lo hi a cs rule: try_range.induct)
  case (1 src p min_val max_val attempts cs)
  note r = randint_range[OF "1.prems"(2), of src p]
  show ?case
  proof (cases "attempts < 10")
    case False
    with "1.prems"(4,5) show ?thesis by (simp add: try_range.simps)
  next
    case lt: True
    show ?thesis
    proof (cases "randint src p min_val max_val \<in> cs")
      case True
      with lt "1.prems"(5) have
        "try_range src (Suc p) min_val max_val (attempts + 1) cs = (cs', p')"
        by (simp add: try_range.simps[of src p])
      from "1.IH"[OF lt _ "1.prems"(1-4) this] True show ?thesis by simp
    next
      case False
      with lt "1.prems"(5) have "cs' = insert (randint src p min_val max_val) cs"
        by (simp add: try_range.simps[of src p])
      with r "1.prems"(1,3,4) card_insert_candidates[OF "1.prems"(4)] show ?thesis by auto
    qed
  qed
qed

lemma ranges_to_pick_set: "set (ranges_to_pick avg) = {0, 1, 2, 3}"
proof -
  have u: "[0..<4] = [0, 1, 2, 3]" by (simp add: upt_rec)
  have "0 < max 1 n" for n :: nat by simp
  then show ?thesis
    unfolding ranges_to_pick_def u by (auto simp: set_replicate_conv_if)
qed

lemma fill_ranges_ok:
  "set rtp \<subseteq> {0, 1, 2, 3} \<Longrightarrow> rtp \<noteq> [] \<Longrightarrow> cs \<subseteq> {0..43} \<Longrightarrow> card cs \<le> 5 \<Longrightarrow>
   \<exists>cs' p'. fill_ranges src p rtp k cs = Inr (cs', p') \<and> cs' \<subseteq> {0..43} \<and> card cs' \<le> 5"
proof (induction k arbitrary: p cs)
  case 0
  then show ?case by simp
next
  case (Suc k)
  show ?case
  proof (cases "5 \<le> card cs")
    case True
    with Suc.prems show ?thesis by simp
  next
    case False
    from choice_member[OF Suc.prems(2)] obtain range_idx where
      c: "choice src p rtp = Inr range_idx" and m: "range_idx \<in> set rtp" by blast
    let ?lo = "range_idx * 11" and ?hi = "min max_number ((range_idx + 1) * 11 - 1)"
    from m Suc.prems(1) have idx: "range_idx \<in> {0, 1, 2, 3}" by blast
    then have b: "0 \<le> ?lo" "?lo \<le> ?hi" "?hi \<le> 43"
      by (auto simp: max_number_def)
    obtain cs1 p1 where t: "try_range src (Suc p) ?lo ?hi 0 cs = (cs1, p1)"
      by (cases "try_range src (Suc p) ?lo ?hi 0 cs")
    from try_range_ok[OF b Suc.prems(3) t] False
    have s1: "cs1 \<subseteq> {0..43}" and k1: "card cs1 \<le> 5" by simp_all
    from Suc.IH[OF Suc.prems(1,2) s1 k1, of p1] False c t show ?thesis
      by (simp add: Let_def)
  qed
qed

lemma top_up_ok:
  assumes "top_up src p cs = Some y" and "cs \<subseteq> {0..43}" and "card cs \<le> 5"
  shows "fst y \<subseteq> {0..43} \<and> card (fst y) = 5"
proof -
  have "cs \<subseteq> {0..43} \<longrightarrow> card cs \<le> 5 \<longrightarrow> fst y \<subseteq> {0..43} \<and> card (fst y) = 5"
  proof (rule top_up.raw_induct[where P = "\<lambda>src p cs y.
      cs \<subseteq> {0..43} \<longrightarrow> card cs \<le> 5 \<longrightarrow> fst y \<subseteq> {0..43} \<and> card (fst y) = 5", OF _ assms(1)])
    fix f :: "rng \<Rightarrow> nat \<Rightarrow> int set \<Rightarrow> (int set \<times> nat) option"
    fix src p cs y
    assume IH: "\<And>src p cs y. f src p cs = Some y \<Longrightarrow>
        cs \<subseteq> {0..43} \<longrightarrow> card cs \<le> 5 \<longrightarrow> fst y \<subseteq> {0..43} \<and> card (fst y) = 5"
      and eq: "(if card cs < 5 then f src (Suc p) (insert (randint src p 0 max_number) cs)
               else Some (cs, p)) = Some y"
    show "cs \<subseteq> {0..43} \<longrightarrow> card cs \<le> 5 \<longrightarrow> fst y \<subseteq> {0..43} \<and> card (fst y) = 5"
    proof (intro impI)
      assume sub: "cs \<subseteq> {0..43}" and le: "card cs \<le> 5"
      show "fst y \<subseteq> {0..43} \<and> card (fst y) = 5"
      proof (cases "card cs < 5")
        case False
        with eq le show ?thesis using sub by auto
      next
        case True
        let ?x = "randint src p 0 max_number"
        from True eq have "f src (Suc p) (insert ?x cs) = Some y" by simp
        moreover from randint_range[of 0 max_number src p] sub
        have "insert ?x cs \<subseteq> {0..43}" by (simp add: max_number_def)
        moreover from True card_insert_candidates[OF sub, of ?x]
        have "card (insert ?x cs) \<le> 5" by simp
        ultimately show ?thesis using IH by blast
      qed
    qed
  qed
  with assms(2,3) show ?thesis by simp
qed

section \<open>When the top-up loop ends\<close>

lemma top_up_returns:
  "finite cs \<Longrightarrow> 5 \<le> card (cs \<union> (\<lambda>k. randint src k 0 max_number) ` {p..<q}) \<Longrightarrow>
   \<exists>y. top_up src p cs = Some y"
proof (induction "q - p" arbitrary: p cs)
  case 0
  then have "{p..<q} = {}" by simp
  with "0.prems" have "\<not> card cs < 5" by simp
  then show ?case by (simp add: top_up.simps)
next
  case (Suc n)
  show ?case
  proof (cases "card cs < 5")
    case False
    then show ?thesis by (simp add: top_up.simps)
  next
    case True
    let ?x = "randint src p 0 max_number"
    from Suc.hyps(2) have "{p..<q} = insert p {Suc p..<q}" by auto
    then have "insert ?x cs \<union> (\<lambda>k. randint src k 0 max_number) ` {Suc p..<q} =
        cs \<union> (\<lambda>k. randint src k 0 max_number) ` {p..<q}"
      by simp
    with Suc.prems have
      "5 \<le> card (insert ?x cs \<union> (\<lambda>k. randint src k 0 max_number) ` {Suc p..<q})"
      by simp
    moreover from Suc.hyps(2) have "n = q - Suc p" by simp
    moreover from Suc.prems(1) have "finite (insert ?x cs)" by simp
    ultimately have "\<exists>y. top_up src (Suc p) (insert ?x cs) = Some y"
      using Suc.hyps(1) by blast
    with True show ?thesis by (simp add: top_up.simps[of src p])
  qed
qed

lemma top_up_returns_only_if:
  assumes "top_up src p cs = Some y" and "finite cs"
  shows "\<exists>q. 5 \<le> card (cs \<union> (\<lambda>k. randint src k 0 max_number) ` {p..<q})"
proof -
  have "finite cs \<longrightarrow> (\<exists>q. 5 \<le> card (cs \<union> (\<lambda>k. randint src k 0 max_number) ` {p..<q}))"
  proof (rule top_up.raw_induct[where P = "\<lambda>src p cs y.
      finite cs \<longrightarrow> (\<exists>q. 5 \<le> card (cs \<union> (\<lambda>k. randint src k 0 max_number) ` {p..<q}))",
      OF _ assms(1)])
    fix f :: "rng \<Rightarrow> nat \<Rightarrow> int set \<Rightarrow> (int set \<times> nat) option"
    fix src p cs y
    assume IH: "\<And>src p cs y. f src p cs = Some y \<Longrightarrow>
        finite cs \<longrightarrow> (\<exists>q. 5 \<le> card (cs \<union> (\<lambda>k. randint src k 0 max_number) ` {p..<q}))"
      and eq: "(if card cs < 5 then f src (Suc p) (insert (randint src p 0 max_number) cs)
               else Some (cs, p)) = Some y"
    show "finite cs \<longrightarrow> (\<exists>q. 5 \<le> card (cs \<union> (\<lambda>k. randint src k 0 max_number) ` {p..<q}))"
    proof (intro impI)
      assume fin: "finite cs"
      show "\<exists>q. 5 \<le> card (cs \<union> (\<lambda>k. randint src k 0 max_number) ` {p..<q})"
      proof (cases "card cs < 5")
        case False
        then have "5 \<le> card (cs \<union> (\<lambda>k. randint src k 0 max_number) ` {p..<p})" by simp
        then show ?thesis by blast
      next
        case True
        let ?x = "randint src p 0 max_number"
        let ?g = "\<lambda>k. randint src k 0 max_number"
        from True eq have "f src (Suc p) (insert ?x cs) = Some y" by simp
        with IH fin obtain q where q: "5 \<le> card (insert ?x cs \<union> ?g ` {Suc p..<q})"
          by fastforce
        have "insert ?x cs \<union> ?g ` {Suc p..<q} \<subseteq> cs \<union> ?g ` {p..<max q (Suc p)}"
          by auto
        moreover have "finite (cs \<union> ?g ` {p..<max q (Suc p)})"
          using fin by simp
        ultimately have "card (insert ?x cs \<union> ?g ` {Suc p..<q}) \<le>
            card (cs \<union> ?g ` {p..<max q (Suc p)})"
          by (rule card_mono[rotated])
        with q have "5 \<le> card (cs \<union> ?g ` {p..<max q (Suc p)})" by simp
        then show ?thesis by blast
      qed
    qed
  qed
  with assms(2) show ?thesis by simp
qed

lemma fair_reaches_five:
  assumes "fair src" and "finite cs"
  shows "\<exists>q. 5 \<le> card (cs \<union> (\<lambda>k. randint src k 0 max_number) ` {p..<q})"
proof -
  let ?g = "\<lambda>k. randint src k 0 max_number"
  have "\<forall>v \<in> {0, 1, 2, 3, 4}. \<exists>q \<ge> p. ?g q = v"
    using assms(1) by (simp add: fair_def max_number_def)
  then obtain q0 q1 q2 q3 q4 where
    q: "p \<le> q0" "?g q0 = 0" "p \<le> q1" "?g q1 = 1" "p \<le> q2" "?g q2 = 2"
       "p \<le> q3" "?g q3 = 3" "p \<le> q4" "?g q4 = 4"
    by auto
  let ?q = "Suc (Max {q0, q1, q2, q3, q4})"
  have "q0 \<in> {p..<?q}" "q1 \<in> {p..<?q}" "q2 \<in> {p..<?q}" "q3 \<in> {p..<?q}" "q4 \<in> {p..<?q}"
    using q by (simp_all add: less_Suc_eq_le)
  then have "?g q0 \<in> ?g ` {p..<?q}" "?g q1 \<in> ?g ` {p..<?q}" "?g q2 \<in> ?g ` {p..<?q}"
    "?g q3 \<in> ?g ` {p..<?q}" "?g q4 \<in> ?g ` {p..<?q}"
    by blast+
  with q have "{0, 1, 2, 3, 4} \<subseteq> cs \<union> ?g ` {p..<?q}" by auto
  moreover have "finite (cs \<union> ?g ` {p..<?q})" using assms(2) by simp
  ultimately have "card {0, 1, 2, 3, 4 :: int} \<le> card (cs \<union> ?g ` {p..<?q})"
    by (rule card_mono[rotated])
  then have "5 \<le> card (cs \<union> ?g ` {p..<?q})" by simp
  then show ?thesis by blast
qed

lemma top_up_stuck:
  assumes "0 \<in> cs" and "card cs < 5" and "finite cs"
  shows "top_up stuck_source p cs = None"
proof (rule ccontr)
  assume "top_up stuck_source p cs \<noteq> None"
  then obtain y where y: "top_up stuck_source p cs = Some y" by blast
  from top_up_returns_only_if[OF y assms(3)] obtain q where
    "5 \<le> card (cs \<union> (\<lambda>k. randint stuck_source k 0 max_number) ` {p..<q})" by blast
  moreover have "(\<lambda>k. randint stuck_source k 0 max_number) ` {p..<q} \<subseteq> {0}"
    by (auto simp: randint_def stuck_source_def)
  with assms(1) have "cs \<union> (\<lambda>k. randint stuck_source k 0 max_number) ` {p..<q} = cs" by auto
  ultimately show False using assms(2) by simp
qed

section \<open>One prediction and the loop over them\<close>

lemma final_numbers_ok:
  assumes "cs \<subseteq> {0..43}" and "card cs = 5"
  shows "draw_ok \<lparr>regular = sort (take 5 (sorted_list_of_set cs)), hot = h\<rparr> \<longleftrightarrow> 1 \<le> h \<and> h \<le> 16"
proof -
  let ?l = "sorted_list_of_set cs"
  have fin: "finite cs" using assms(1) by (rule finite_candidates)
  then have len: "length ?l = 5" using assms(2) by simp
  then have "take 5 ?l = ?l" by simp
  moreover have "sort ?l = ?l" by (simp add: sort_key_id_if_sorted)
  ultimately have eq: "sort (take 5 ?l) = ?l" by simp
  have "list_all (\<lambda>num. 0 \<le> num \<and> num \<le> max_number) ?l"
    using assms(1) fin by (auto simp: list_all_iff max_number_def)
  with len show ?thesis
    unfolding eq by (simp add: draw_ok_def hot_number_max_def)
qed

lemma pick_hot_ok:
  assumes "set mch \<subseteq> {1..16}"
  shows "\<exists>h. pick_hot src p mch = Inr h \<and> 1 \<le> h \<and> h \<le> 16 \<and> (mch \<noteq> [] \<longrightarrow> h \<in> set mch)"
proof (cases "mch = []")
  case True
  with randint_range[of 1 hot_number_max src p] show ?thesis
    by (simp add: pick_hot_def hot_number_max_def)
next
  case False
  from choice_member[OF False] obtain h where "choice src p mch = Inr h" and "h \<in> set mch"
    by blast
  with False assms show ?thesis by (auto simp: pick_hot_def)
qed

lemma predict_one_shape:
  assumes "set mcr \<subseteq> {0..43}"
  shows "\<exists>cs2 p2. cs2 \<subseteq> {0..43} \<and> card cs2 \<le> 5 \<and>
           predict_one src p mcr mch avg =
             (case top_up src p2 cs2 of
                None \<Rightarrow> None
              | Some (cs3, p3) \<Rightarrow>
                  (case pick_hot src p3 mch of
                     Inl e \<Rightarrow> Some (Inl e)
                   | Inr hot_number \<Rightarrow>
                       Some (Inr (\<lparr>regular = sort (take 5 (sorted_list_of_set cs3)),
                                   hot = hot_number\<rparr>, Suc p3))))"
proof -
  from pick_frequent_ok[OF assms, of "{}" src p 3] obtain cs1 p1 where
    f: "pick_frequent src p mcr 3 {} = Inr (cs1, p1)" and s1: "cs1 \<subseteq> {0..43}"
    and k1: "card cs1 \<le> 3"
    by auto
  from k1 have k1': "card cs1 \<le> 5" by simp
  have "set (ranges_to_pick avg) \<subseteq> {0, 1, 2, 3}" and "ranges_to_pick avg \<noteq> []"
    using ranges_to_pick_set[of avg] by auto
  from fill_ranges_ok[OF this s1 k1', of src p1 "5 - card cs1"] obtain cs2 p2 where
    r: "fill_ranges src p1 (ranges_to_pick avg) (5 - card cs1) cs1 = Inr (cs2, p2)"
    and s2: "cs2 \<subseteq> {0..43}" and k2: "card cs2 \<le> 5"
    by blast
  from f r have "predict_one src p mcr mch avg =
             (case top_up src p2 cs2 of
                None \<Rightarrow> None
              | Some (cs3, p3) \<Rightarrow>
                  (case pick_hot src p3 mch of
                     Inl e \<Rightarrow> Some (Inl e)
                   | Inr hot_number \<Rightarrow>
                       Some (Inr (\<lparr>regular = sort (take 5 (sorted_list_of_set cs3)),
                                   hot = hot_number\<rparr>, Suc p3))))"
    by (simp add: predict_one_def Let_def split: option.splits)
  with s2 k2 show ?thesis by blast
qed

lemma predict_one_ok:
  assumes "set mcr \<subseteq> {0..43}" and "set mch \<subseteq> {1..16}"
    and "predict_one src p mcr mch avg = Some r"
  shows "\<exists>d p'. r = Inr (d, p') \<and> draw_ok d \<and> (mch \<noteq> [] \<longrightarrow> hot d \<in> set mch)"
proof -
  from predict_one_shape[OF assms(1), of src p mch avg] obtain cs2 p2 where
    s2: "cs2 \<subseteq> {0..43}" and k2: "card cs2 \<le> 5" and
    eq: "predict_one src p mcr mch avg =
             (case top_up src p2 cs2 of
                None \<Rightarrow> None
              | Some (cs3, p3) \<Rightarrow>
                  (case pick_hot src p3 mch of
                     Inl e \<Rightarrow> Some (Inl e)
                   | Inr hot_number \<Rightarrow>
                       Some (Inr (\<lparr>regular = sort (take 5 (sorted_list_of_set cs3)),
                                   hot = hot_number\<rparr>, Suc p3))))"
    by blast
  from eq assms(3) obtain cs3 p3 where t: "top_up src p2 cs2 = Some (cs3, p3)"
    by (cases "top_up src p2 cs2") auto
  from top_up_ok[OF t s2 k2] have s3: "cs3 \<subseteq> {0..43}" and k3: "card cs3 = 5" by simp_all
  from pick_hot_ok[OF assms(2), of src p3] obtain h where
    h: "pick_hot src p3 mch = Inr h" "1 \<le> h" "h \<le> 16" "mch \<noteq> [] \<longrightarrow> h \<in> set mch"
    by blast
  from eq t h(1) assms(3)
  have "r = Inr (\<lparr>regular = sort (take 5 (sorted_list_of_set cs3)), hot = h\<rparr>, Suc p3)"
    by simp
  moreover have "draw_ok \<lparr>regular = sort (take 5 (sorted_list_of_set cs3)), hot = h\<rparr>"
    using final_numbers_ok[OF s3 k3] h(2,3) by simp
  ultimately show ?thesis using h(4) by auto
qed

lemma predict_one_returns:
  assumes "set mcr \<subseteq> {0..43}" and "fair src"
  shows "\<exists>r. predict_one src p mcr mch avg = Some r"
proof -
  from predict_one_shape[OF assms(1), of src p mch avg] obtain cs2 p2 where
    s2: "cs2 \<subseteq> {0..43}" and
    eq: "predict_one src p mcr mch avg =
             (case top_up src p2 cs2 of
                None \<Rightarrow> None
              | Some (cs3, p3) \<Rightarrow>
                  (case pick_hot src p3 mch of
                     Inl e \<Rightarrow> Some (Inl e)
                   | Inr hot_number \<Rightarrow>
                       Some (Inr (\<lparr>regular = sort (take 5 (sorted_list_of_set cs3)),
                                   hot = hot_number\<rparr>, Suc p3))))"
    by blast
  have fin: "finite cs2" using s2 by (rule finite_candidates)
  from fair_reaches_five[OF assms(2) fin, of p2] obtain q where
    "5 \<le> card (cs2 \<union> (\<lambda>k. randint src k 0 max_number) ` {p2..<q})" by blast
  from top_up_returns[OF fin this] obtain y where "top_up src p2 cs2 = Some y" by blast
  with eq show ?thesis by (auto split: prod.splits sum.splits)
qed

lemma predict_loop_ok:
  assumes "set mcr \<subseteq> {0..43}" and "set mch \<subseteq> {1..16}"
  shows "predict_loop src p mcr mch avg n acc = Some r \<Longrightarrow>
         \<exists>preds. r = Inr (acc @ preds) \<and> length preds = n \<and> list_all draw_ok preds \<and>
           (mch \<noteq> [] \<longrightarrow> list_all (\<lambda>d. hot d \<in> set mch) preds)"
proof (induction n arbitrary: p acc)
  case 0
  then show ?case by auto
next
  case (Suc n)
  from Suc.prems obtain r1 where r1: "predict_one src p mcr mch avg = Some r1"
    by (cases "predict_one src p mcr mch avg") auto
  from predict_one_ok[OF assms r1] obtain d p' where
    d: "r1 = Inr (d, p')" "draw_ok d" "mch \<noteq> [] \<longrightarrow> hot d \<in> set mch" by blast
  from Suc.prems r1 d(1) have "predict_loop src p' mcr mch avg n (acc @ [d]) = Some r"
    by simp
  from Suc.IH[OF this] obtain preds where
    "r = Inr ((acc @ [d]) @ preds)" "length preds = n" "list_all draw_ok preds"
    "mch \<noteq> [] \<longrightarrow> list_all (\<lambda>d. hot d \<in> set mch) preds"
    by blast
  with d(2,3) have "r = Inr (acc @ (d # preds)) \<and> length (d # preds) = Suc n \<and>
      list_all draw_ok (d # preds) \<and>
      (mch \<noteq> [] \<longrightarrow> list_all (\<lambda>d. hot d \<in> set mch) (d # preds))"
    by simp
  then show ?case by blast
qed

lemma predict_loop_returns:
  assumes "set mcr \<subseteq> {0..43}" and "set mch \<subseteq> {1..16}" and "fair src"
  shows "\<exists>r. predict_loop src p mcr mch avg n acc = Some r"
proof (induction n arbitrary: p acc)
  case 0
  then show ?case by simp
next
  case (Suc n)
  from predict_one_returns[OF assms(1,3), of p mch avg] obtain r1 where
    r1: "predict_one src p mcr mch avg = Some r1" by blast
  from predict_one_ok[OF assms(1,2) r1] obtain d p' where d: "r1 = Inr (d, p')" by blast
  from Suc.IH[of p' "acc @ [d]"] r1 d show ?case by simp
qed

lemma list_incr_ok:
  "0 \<le> i \<Longrightarrow> i < int (length xs) \<Longrightarrow> \<exists>ys. list_incr i xs = Inr ys \<and> length ys = length xs"
  by (simp add: list_incr_def)

lemma range_counts_ok:
  "\<forall>num \<in> set xs. 0 \<le> num \<Longrightarrow> length ranges = 4 \<Longrightarrow>
   \<exists>r. range_counts xs ranges = Inr r \<and> length r = 4"
proof (induction xs arbitrary: ranges)
  case Nil
  then show ?case by simp
next
  case (Cons num xs)
  from Cons.prems have "0 \<le> min 3 (num div 11)" and "min 3 (num div 11) < int (length ranges)"
    by (simp_all add: pos_imp_zdiv_nonneg_iff)
  from list_incr_ok[OF this] obtain ys where
    y: "list_incr (min 3 (num div 11)) ranges = Inr ys" "length ys = 4"
    using Cons.prems(2) by auto
  from Cons.IH[OF _ y(2)] Cons.prems(1) y(1) show ?case by simp
qed

lemma patterns_loop_ok:
  "list_all draw_ok ds \<Longrightarrow> \<exists>pats'. patterns_loop ds pats = Inr pats'"
proof (induction ds arbitrary: pats)
  case Nil
  then show ?case by simp
next
  case (Cons d ds)
  then have "\<forall>num \<in> set (regular d). 0 \<le> num"
    by (simp add: draw_ok_def list_all_iff)
  from range_counts_ok[OF this, of "[0, 0, 0, 0]"] obtain r where
    "range_counts (regular d) [0, 0, 0, 0] = Inr r" by auto
  with Cons show ?case by (simp add: Let_def)
qed

lemma analyze_patterns_ok:
  assumes "store_ok st"
  shows "(length st < 2 \<longrightarrow> analyze_patterns st = Inl InsufficientDataError) \<and>
         (2 \<le> length st \<longrightarrow> (\<exists>pats. analyze_patterns st = Inr pats))"
  using assms patterns_loop_ok[of st] by (auto simp: analyze_patterns_def store_ok_def)

lemma predict_next_result_unfold:
  assumes "store_ok st" and "3 \<le> length st"
  shows "\<exists>avg. predict_next_result st n src p =
           predict_loop src p (most_common_regular st) (most_common_hot st) avg n []"
proof -
  from analyze_patterns_ok[OF assms(1)] assms(2) obtain pats where
    "analyze_patterns st = Inr pats" by auto
  with assms(2) show ?thesis by (auto simp: predict_next_result_def)
qed

section \<open>Prediction: results\<close>

lemma predict_next_result_ok:
  assumes "store_ok st" and "3 \<le> length st"
  shows "(\<forall>r. predict_next_result st n src p = Some r \<longrightarrow>
            (\<exists>preds. r = Inr preds \<and> length preds = n \<and> list_all draw_ok preds)) \<and>
         (fair src \<longrightarrow>
            (\<exists>preds. predict_next_result st n src p = Some (Inr preds) \<and> length preds = n \<and>
               list_all draw_ok preds))"
proof -
  from predict_next_result_unfold[OF assms, of n src p] obtain avg where
    eq: "predict_next_result st n src p =
           predict_loop src p (most_common_regular st) (most_common_hot st) avg n []"
    by blast
  note mcr = most_common_regular_range[OF assms(1)]
  note mch = most_common_hot_range[OF assms(1)]
  have part: "\<exists>preds. r = Inr preds \<and> length preds = n \<and> list_all draw_ok preds"
    if "predict_next_result st n src p = Some r" for r
    using predict_loop_ok[OF mcr mch, of src p avg n "[]" r] that eq by auto
  have "\<exists>preds. predict_next_result st n src p = Some (Inr preds) \<and> length preds = n \<and>
               list_all draw_ok preds" if "fair src"
  proof -
    from predict_loop_returns[OF mcr mch that, of p avg n "[]"] eq obtain r where
      r: "predict_next_result st n src p = Some r" by auto
    from part[OF r] r show ?thesis by auto
  qed
  with part show ?thesis by blast
qed

text \<open>
  C1, as amended: on a store of at least three well-formed draws, whatever
  \<open>predict_next_result\<close> returns is a list of exactly \<open>n\<close> candidates, each with five
  distinct regulars in 0..43 in ascending order and a hot value in 1..16; and it does return
  on every fair random source. It does not return on every source.
\<close>

theorem predictions_well_formed:
  assumes "store_ok st" and "3 \<le> length st"
  shows "(\<forall>r. predict_next_result st n src p = Some r \<longrightarrow>
            (\<exists>preds. r = Inr preds \<and> length preds = n \<and> list_all draw_ok preds)) \<and>
         (fair src \<longrightarrow>
            (\<exists>preds. predict_next_result st n src p = Some (Inr preds) \<and> length preds = n \<and>
               list_all draw_ok preds))"
  using assms by (rule predict_next_result_ok)

text \<open>
  C8, as amended: started on a finite set, the top-up loop ends exactly when the set together
  with the full-range draws from the loop's start on comes to five distinct values; so it
  ends on every fair source. Each draw is taken from the whole range 0..43, members of the
  set included.
\<close>

theorem top_up_terminates_iff:
  assumes "finite cs"
  shows "(top_up src p cs \<noteq> None \<longleftrightarrow>
            (\<exists>q. 5 \<le> card (cs \<union> (\<lambda>k. randint src k 0 max_number) ` {p..<q}))) \<and>
         (fair src \<longrightarrow> top_up src p cs \<noteq> None)"
proof -
  have iff: "top_up src p cs \<noteq> None \<longleftrightarrow>
      (\<exists>q. 5 \<le> card (cs \<union> (\<lambda>k. randint src k 0 max_number) ` {p..<q}))"
    using top_up_returns[OF assms] top_up_returns_only_if[OF _ assms] by blast
  moreover have "top_up src p cs \<noteq> None" if "fair src"
    using fair_reaches_five[OF that assms] iff by blast
  ultimately show ?thesis by blast
qed

lemma chaos_floor:
  assumes "store_ok st"
  shows "(chaos_theory_analysis st = Inl InsufficientDataError \<longleftrightarrow> length st < 3) \<and>
         (3 \<le> length st \<longrightarrow> (\<exists>c. chaos_theory_analysis st = Inr c))"
proof (cases "length st < 3")
  case True
  then show ?thesis by (simp add: chaos_theory_analysis_def)
next
  case False
  then have "3 \<le> length st" by simp
  from chaos_value[OF assms this] False show ?thesis by simp
qed

text \<open>
  C4, as amended: on a store of well-formed draws, \<open>analyze_patterns\<close> reports
  insufficient data exactly below two draws, \<open>chaos_theory_analysis\<close> and
  \<open>predict_next_result\<close> exactly below three; from its floor on, each analysis returns its
  structured result, and the prediction returns no error on any random source and its list
  of candidates on every fair one. On other sources it need not return at all.
\<close>

theorem insufficient_data_floors:
  assumes "store_ok st"
  shows "(analyze_patterns st = Inl InsufficientDataError \<longleftrightarrow> length st < 2) \<and>
         (2 \<le> length st \<longrightarrow> (\<exists>pats. analyze_patterns st = Inr pats)) \<and>
         (chaos_theory_analysis st = Inl InsufficientDataError \<longleftrightarrow> length st < 3) \<and>
         (3 \<le> length st \<longrightarrow> (\<exists>c. chaos_theory_analysis st = Inr c)) \<and>
         (predict_next_result st n src p = Some (Inl InsufficientDataError) \<longleftrightarrow> length st < 3) \<and>
         (3 \<le> length st \<longrightarrow>
            (\<forall>r. predict_next_result st n src p = Some r \<longrightarrow> (\<exists>preds. r = Inr preds))) \<and>
         (3 \<le> length st \<and> fair src \<longrightarrow>
            (\<exists>preds. predict_next_result st n src p = Some (Inr preds)))"
proof -
  have pat: "(analyze_patterns st = Inl InsufficientDataError \<longleftrightarrow> length st < 2) \<and>
         (2 \<le> length st \<longrightarrow> (\<exists>pats. analyze_patterns st = Inr pats))"
    using analyze_patterns_ok[OF assms] by (cases "length st < 2") auto
  have pred1: "predict_next_result st n src p = Some (Inl InsufficientDataError) \<longleftrightarrow> length st < 3"
  proof (cases "length st < 3")
    case True
    then show ?thesis by (simp add: predict_next_result_def)
  next
    case False
    then have "3 \<le> length st" by simp
    from predict_next_result_ok[OF assms this, of n src p] False show ?thesis by auto
  qed
  have pred2: "\<exists>preds. predict_next_result st n src p = Some (Inr preds)"
    if "3 \<le> length st \<and> fair src"
    using predict_next_result_ok[OF assms, of n src p] that by blast
  have pred3: "\<forall>r. predict_next_result st n src p = Some r \<longrightarrow> (\<exists>preds. r = Inr preds)"
    if "3 \<le> length st"
    using predict_next_result_ok[OF assms that, of n src p] by blast
  from pat chaos_floor[OF assms] pred1 pred2 pred3 show ?thesis by blast
qed

lemma pick_frequent_nonempty:
  "mcr \<noteq> [] \<Longrightarrow>
   \<exists>cs'. pick_frequent src p mcr k cs = Inr (cs', p + k) \<and> cs \<subseteq> cs' \<and> (0 < k \<longrightarrow> cs' \<noteq> {})"
proof (induction k arbitrary: p cs)
  case 0
  then show ?case by simp
next
  case (Suc k)
  from choice_member[OF Suc.prems] obtain num where c: "choice src p mcr = Inr num" by blast
  from Suc.IH[OF Suc.prems, of "Suc p" "insert num cs"] obtain cs' where
    "pick_frequent src (Suc p) mcr k (insert num cs) = Inr (cs', Suc p + k)"
    and "insert num cs \<subseteq> cs'"
    by blast
  with Suc.prems c show ?case by auto
qed

text \<open>
  C10: on a store of at least three well-formed draws the list of most frequent regulars
  has at least five entries and that of most frequent hot values at least one. So each of
  the three frequent-number draws is made (three raw draws are used and the set is not
  empty after them), the hot value is the \<open>choice\<close> from the most frequent hot values and
  never the full-range fallback, and every predicted hot value is one of them.
\<close>

theorem frequent_lists_nonempty:
  assumes "store_ok st" and "3 \<le> length st"
  shows "5 \<le> length (most_common_regular st) \<and> 1 \<le> length (most_common_hot st) \<and>
         (\<exists>cs. pick_frequent src p (most_common_regular st) 3 {} = Inr (cs, p + 3) \<and> cs \<noteq> {}) \<and>
         pick_hot src p (most_common_hot st) = choice src p (most_common_hot st) \<and>
         (\<exists>h. pick_hot src p (most_common_hot st) = Inr h \<and> h \<in> set (most_common_hot st)) \<and>
         (\<forall>preds. predict_next_result st n src p = Some (Inr preds) \<longrightarrow>
            list_all (\<lambda>d. hot d \<in> set (most_common_hot st)) preds)"
proof -
  from assms(2) have ne: "st \<noteq> []" by auto
  note l5 = most_common_regular_length[OF assms(1) ne]
  note l1 = most_common_hot_length[OF ne]
  from l5 have mcr: "most_common_regular st \<noteq> []" by auto
  from l1 have mch: "most_common_hot st \<noteq> []" by auto
  from pick_frequent_nonempty[OF mcr, of src p 3 "{}"]
  have pf: "\<exists>cs. pick_frequent src p (most_common_regular st) 3 {} = Inr (cs, p + 3) \<and> cs \<noteq> {}"
    by auto
  have ph: "pick_hot src p (most_common_hot st) = choice src p (most_common_hot st)"
    using mch by (simp add: pick_hot_def)
  from choice_member[OF mch, of src p] ph
  have ph2: "\<exists>h. pick_hot src p (most_common_hot st) = Inr h \<and> h \<in> set (most_common_hot st)"
    by auto
  have all: "list_all (\<lambda>d. hot d \<in> set (most_common_hot st)) preds"
    if "predict_next_result st n src p = Some (Inr preds)" for preds
  proof -
    from predict_next_result_unfold[OF assms, of n src p] that obtain avg where
      "predict_loop src p (most_common_regular st) (most_common_hot st) avg n [] = Some (Inr preds)"
      by auto
    from predict_loop_ok[OF most_common_regular_range[OF assms(1)]
        most_common_hot_range[OF assms(1)] this] mch
    show ?thesis by auto
  qed
  from l5 l1 pf ph ph2 all show ?thesis by blast
qed

section \<open>The worked example\<close>

lemma fair_counting_source: "fair counting_source"
proof -
  have "\<exists>q \<ge> p. randint counting_source q 0 max_number = v" if "v \<in> {0..max_number}" for p v
  proof -
    let ?q = "44 * p + nat v"
    from that have "nat v < 44" and "0 \<le> v"
      by (auto simp: max_number_def)
    then have "randint counting_source ?q 0 max_number = v"
      by (simp add: randint_def counting_source_def max_number_def)
    moreover have "p \<le> ?q" by simp
    ultimately show ?thesis by blast
  qed
  then show ?thesis unfolding fair_def by blast
qed

lemma spec_example_patterns:
  "analyze_patterns spec_example = Inr
     \<lparr>sum_regular = [111, 102, 115], odd_even_ratio = [3 / 5, 2 / 5, 3 / 5],
      range_distribution = spec_example_histograms,
      consecutive_numbers = [False, False, False],
      hot_correlation = [False, False, False]\<rparr>"
  by code_simp

lemma spec_example_frequent:
  "most_common_regular spec_example = [5, 12, 23, 31, 40, 2, 19, 38, 18, 29]"
  "most_common_hot spec_example = [3, 7]"
  by code_simp+

lemma spec_example_pool:
  "ranges_to_pick (avg_range spec_example_histograms) =
     [0, 0, 1, 1, 2, 2, 2, 3, 3]"
  by code_simp

lemma stuck_frequent:
  "pick_frequent stuck_source 0 [5, 12, 23, 31, 40, 2, 19, 38, 18, 29] 3 {} = Inr ({5}, 3)"
  by code_simp

lemma stuck_fill:
  "fill_ranges stuck_source 3 [0, 0, 1, 1, 2, 2, 2, 3, 3] 4 {5} = Inr ({0, 5}, 38)"
  by code_simp

lemma stuck_top_up: "top_up stuck_source 38 {0, 5} = None"
  by (rule top_up_stuck) simp_all

lemma length_spec_example: "length spec_example = 3"
  by (simp add: spec_example_def)

theorem predictions_stuck_counterexample:
  "store_ok spec_example \<and> length spec_example = 3 \<and>
   predict_next_result spec_example 1 stuck_source 0 = None"
proof -
  have "predict_one stuck_source 0 [5, 12, 23, 31, 40, 2, 19, 38, 18, 29] [3, 7]
          (avg_range spec_example_histograms) = None"
    by (simp add: predict_one_def stuck_frequent spec_example_pool stuck_fill stuck_top_up)
  then have "predict_next_result spec_example 1 stuck_source 0 = None"
    by (simp add: predict_next_result_def length_spec_example spec_example_patterns
        spec_example_frequent)
  with store_ok_spec_example length_spec_example show ?thesis by simp
qed

theorem predictions_well_formed_witness:
  "store_ok spec_example \<and> 3 \<le> length spec_example \<and> fair counting_source \<and>
   predict_next_result spec_example 2 counting_source 0 =
     Some (Inr [\<lparr>regular = [5, 12, 15, 23, 28], hot = 7\<rparr>,
                \<lparr>regular = [5, 12, 18, 25, 29], hot = 7\<rparr>]) \<and>
   list_all draw_ok [\<lparr>regular = [5, 12, 15, 23, 28], hot = 7\<rparr>,
                     \<lparr>regular = [5, 12, 18, 25, 29], hot = 7\<rparr>]"
proof -
  have l: "3 \<le> length spec_example" by (simp add: length_spec_example)
  have v: "predict_next_result spec_example 2 counting_source 0 =
     Some (Inr [\<lparr>regular = [5, 12, 15, 23, 28], hot = 7\<rparr>,
                \<lparr>regular = [5, 12, 18, 25, 29], hot = 7\<rparr>])"
    by code_simp
  from predictions_well_formed[OF store_ok_spec_example l, of 2 counting_source 0] v
  have "list_all draw_ok [\<lparr>regular = [5, 12, 15, 23, 28], hot = 7\<rparr>,
                     \<lparr>regular = [5, 12, 18, 25, 29], hot = 7\<rparr>]"
    by simp
  with store_ok_spec_example l fair_counting_source v show ?thesis by simp
qed

theorem top_up_stuck_counterexample:
  "map_sum id range_distribution (analyze_patterns spec_example) =
     Inr spec_example_histograms \<and>
   pick_frequent stuck_source 0 (most_common_regular spec_example) 3 {} = Inr ({5}, 3) \<and>
   fill_ranges stuck_source 3
     (ranges_to_pick (avg_range spec_example_histograms)) 4 {5} =
     Inr ({0, 5}, 38) \<and>
   top_up stuck_source 38 {0, 5} = None"
  by (simp add: spec_example_patterns spec_example_frequent stuck_frequent spec_example_pool
      stuck_fill stuck_top_up)

theorem top_up_terminates_iff_witness:
  "finite {0, 5 :: int} \<and> fair counting_source \<and>
   top_up counting_source 38 {0, 5} = Some ({0, 5, 38, 39, 40}, 41) \<and>
   top_up counting_source 38 {0, 5} \<noteq> None"
proof -
  have f: "finite {0, 5 :: int}" by simp
  have v: "top_up counting_source 38 {0, 5} = Some ({0, 5, 38, 39, 40}, 41)"
    by code_simp
  from top_up_terminates_iff[OF f, of counting_source 38] fair_counting_source
  have "top_up counting_source 38 {0, 5} \<noteq> None" by blast
  with f v fair_counting_source show ?thesis by simp
qed

theorem insufficient_data_floors_witness:
  "store_ok (take 1 spec_example) \<and> store_ok (take 2 spec_example) \<and> store_ok spec_example \<and>
   fair counting_source \<and>
   analyze_patterns (take 1 spec_example) = Inl InsufficientDataError \<and>
   (\<exists>pats. analyze_patterns (take 2 spec_example) = Inr pats) \<and>
   chaos_theory_analysis (take 2 spec_example) = Inl InsufficientDataError \<and>
   (\<exists>c. chaos_theory_analysis spec_example = Inr c) \<and>
   predict_next_result (take 2 spec_example) 1 counting_source 0 =
     Some (Inl InsufficientDataError) \<and>
   (\<exists>preds. predict_next_result spec_example 1 counting_source 0 = Some (Inr preds))"
proof -
  have ok1: "store_ok (take 1 spec_example)" and ok2: "store_ok (take 2 spec_example)"
    using store_ok_spec_example by (simp_all add: store_ok_def spec_example_def)
  have l: "length (take 1 spec_example) = 1" "length (take 2 spec_example) = 2"
    by (simp_all add: length_spec_example)
  from insufficient_data_floors[OF ok1, of 1 counting_source 0]
    insufficient_data_floors[OF ok2, of 1 counting_source 0]
    insufficient_data_floors[OF store_ok_spec_example, of 1 counting_source 0]
    l length_spec_example fair_counting_source ok1 ok2 store_ok_spec_example
  show ?thesis by simp
qed

lemma predict_one_stuck:
  "predict_one stuck_source 0 (most_common_regular spec_example) (most_common_hot spec_example)
     (avg_range spec_example_histograms) = None"
  by (simp add: predict_one_def spec_example_frequent stuck_frequent spec_example_pool stuck_fill
      stuck_top_up)

theorem floor_prediction_stuck_counterexample:
  "store_ok spec_example \<and> length spec_example = 3 \<and>
   analyze_patterns spec_example \<noteq> Inl InsufficientDataError \<and>
   predict_next_result spec_example 5 stuck_source 0 = None"
proof -
  have loop: "predict_loop stuck_source 0 (most_common_regular spec_example)
          (most_common_hot spec_example) (avg_range spec_example_histograms) (Suc n) [] = None"
    for n
    by (simp only: predict_loop.simps predict_one_stuck option.case)
  have "predict_next_result spec_example (Suc n) stuck_source 0 = None" for n
    by (simp only: predict_next_result_def length_spec_example spec_example_patterns loop
        sum.case patterns.simps less_irrefl if_False)
  from this[of 4] have "predict_next_result spec_example 5 stuck_source 0 = None"
    by simp
  with store_ok_spec_example length_spec_example spec_example_patterns show ?thesis by simp
qed

theorem frequent_lists_nonempty_witness:
  "store_ok spec_example \<and> 3 \<le> length spec_example \<and>
   most_common_regular spec_example = [5, 12, 23, 31, 40, 2, 19, 38, 18, 29] \<and>
   most_common_hot spec_example = [3, 7] \<and>
   5 \<le> length (most_common_regular spec_example) \<and>
   pick_hot counting_source 7 (most_common_hot spec_example) = Inr 7 \<and>
   list_all (\<lambda>d. hot d \<in> set (most_common_hot spec_example))
     [\<lparr>regular = [5, 12, 15, 23, 28], hot = 7\<rparr>, \<lparr>regular = [5, 12, 18, 25, 29], hot = 7\<rparr>]"
proof -
  have l: "3 \<le> length spec_example" by (simp add: length_spec_example)
  have v: "predict_next_result spec_example 2 counting_source 0 =
     Some (Inr [\<lparr>regular = [5, 12, 15, 23, 28], hot = 7\<rparr>,
                \<lparr>regular = [5, 12, 18, 25, 29], hot = 7\<rparr>])"
    by code_simp
  have h: "pick_hot counting_source 7 (most_common_hot spec_example) = Inr 7"
    by code_simp
  from frequent_lists_nonempty[OF store_ok_spec_example l, of counting_source 0 2] v
  have "5 \<le> length (most_common_regular spec_example)" and
    "list_all (\<lambda>d. hot d \<in> set (most_common_hot spec_example))
     [\<lparr>regular = [5, 12, 15, 23, 28], hot = 7\<rparr>, \<lparr>regular = [5, 12, 18, 25, 29], hot = 7\<rparr>]"
    by blast+
  with store_ok_spec_example l spec_example_frequent h show ?thesis by simp
qed

section \<open>The ranged fill\<close>

lemma count_list_replicate: "count_list (replicate n x) y = (if x = y then n else 0)"
  by (induction n) auto

lemma ranges_to_pick_count:
  assumes "i < 4"
  shows "count_list (ranges_to_pick avg) (int i) = max 1 (nat \<lfloor>avg ! i * 2\<rfloor>)"
proof -
  have u: "[0..<4] = [0, 1, 2, 3]" by (simp add: upt_rec)
  from assms have "i = 0 \<or> i = 1 \<or> i = 2 \<or> i = 3" by auto
  then show ?thesis
    unfolding ranges_to_pick_def u by (auto simp: count_list_replicate)
qed

lemma bucket_sums_nth:
  fixes acc :: "nat list"
  assumes "i < 4" and "length acc = 4"
  shows "foldl (\<lambda>acc dist. map (\<lambda>i. acc ! i + dist ! i) [0..<4]) acc dists ! i =
           acc ! i + (\<Sum>d\<leftarrow>dists. d ! i)"
  using assms(2)
proof (induction dists arbitrary: acc)
  case Nil
  then show ?case by simp
next
  case (Cons d dists)
  let ?acc = "map (\<lambda>i. acc ! i + d ! i) [0..<4]"
  have "length ?acc = 4" by simp
  from Cons.IH[OF this] assms(1) show ?case by simp
qed

lemma avg_range_nth:
  assumes "i < 4"
  shows "avg_range dists ! i = of_nat (\<Sum>d\<leftarrow>dists. d ! i) / of_nat (length dists)"
proof -
  let ?sums = "foldl (\<lambda>acc dist. map (\<lambda>i. acc ! i + dist ! i) [0..<4]) [0, 0, 0, 0] dists"
  have l: "length ?sums = 4"
    by (induction dists rule: rev_induct) simp_all
  have "?sums ! i = [0, 0, 0, 0] ! i + (\<Sum>d\<leftarrow>dists. d ! i)"
    using assms by (intro bucket_sums_nth) simp_all
  moreover from assms have "[0, 0, 0, 0 :: nat] ! i = 0"
    by (auto simp: nth_Cons' )
  ultimately have "?sums ! i = (\<Sum>d\<leftarrow>dists. d ! i)" by simp
  with assms l show ?thesis by (simp add: avg_range_def)
qed

lemma try_range_abandon:
  "a \<le> 10 \<Longrightarrow> \<forall>k < 10 - a. randint src (p + k) lo hi \<in> cs \<Longrightarrow>
   try_range src p lo hi a cs = (cs, p + (10 - a))"
proof (induction "10 - a" arbitrary: a p)
  case 0
  then show ?case by (simp add: try_range.simps)
next
  case (Suc n)
  then have lt: "a < 10" and n: "n = 10 - (a + 1)" and le: "a + 1 \<le> 10" by simp_all
  from Suc.prems(2) lt have here: "randint src p lo hi \<in> cs" by force
  have "\<forall>k < 10 - (a + 1). randint src (Suc p + k) lo hi \<in> cs"
  proof (intro allI impI)
    fix k assume "k < 10 - (a + 1)"
    then have "Suc k < 10 - a" by simp
    with Suc.prems(2) have "randint src (p + Suc k) lo hi \<in> cs" by blast
    then show "randint src (Suc p + k) lo hi \<in> cs" by simp
  qed
  from Suc.hyps(1)[OF n le this] lt here show ?case
    by (simp add: try_range.simps[of src p])
qed

lemma try_range_accept:
  "a + j < 10 \<Longrightarrow> \<forall>k < j. randint src (p + k) lo hi \<in> cs \<Longrightarrow>
   randint src (p + j) lo hi \<notin> cs \<Longrightarrow>
   try_range src p lo hi a cs = (insert (randint src (p + j) lo hi) cs, p + j + 1)"
proof (induction j arbitrary: a p)
  case 0
  then show ?case by (simp add: try_range.simps[of src p])
next
  case (Suc j)
  from Suc.prems(2) have here: "randint src p lo hi \<in> cs" by force
  have rest: "\<forall>k < j. randint src (Suc p + k) lo hi \<in> cs"
  proof (intro allI impI)
    fix k assume "k < j"
    then have "Suc k < Suc j" by simp
    with Suc.prems(2) have "randint src (p + Suc k) lo hi \<in> cs" by blast
    then show "randint src (Suc p + k) lo hi \<in> cs" by simp
  qed
  from Suc.prems(1) have lt: "a < 10" and "(a + 1) + j < 10" by simp_all
  from Suc.IH[OF this(2) rest] Suc.prems(3) lt here show ?case
    by (simp add: try_range.simps[of src p])
qed

lemma bucket_pick_range:
  assumes "i < 4"
  shows "11 * int i \<le> randint src p (int i * 11) (min max_number ((int i + 1) * 11 - 1)) \<and>
         randint src p (int i * 11) (min max_number ((int i + 1) * 11 - 1))
           \<le> min 43 (11 * int i + 10)"
proof -
  let ?lo = "int i * 11" and ?hi = "min max_number ((int i + 1) * 11 - 1)"
  from assms have le: "?lo \<le> ?hi" and hi: "?hi = min 43 (11 * int i + 10)"
    by (simp_all add: max_number_def)
  from randint_range[OF le, of src p] have "?lo \<le> randint src p ?lo ?hi"
    and "randint src p ?lo ?hi \<le> ?hi" by blast+
  then have "11 * int i \<le> randint src p ?lo ?hi"
    and "randint src p ?lo ?hi \<le> min 43 (11 * int i + 10)"
    unfolding hi[symmetric] by (simp_all add: mult.commute)
  then show ?thesis by blast
qed

lemma fill_ranges_step:
  assumes "card cs < 5" and "rtp \<noteq> []"
  shows "fill_ranges src p rtp (Suc k) cs =
           fill_ranges src
             (snd (try_range src (Suc p) (rtp ! (src p mod length rtp) * 11)
                     (min max_number ((rtp ! (src p mod length rtp) + 1) * 11 - 1)) 0 cs))
             rtp k
             (fst (try_range src (Suc p) (rtp ! (src p mod length rtp) * 11)
                     (min max_number ((rtp ! (src p mod length rtp) + 1) * 11 - 1)) 0 cs))"
  using assms by (simp add: choice_def Let_def split: prod.splits)

text \<open>
  C2, as amended: \<open>avg_range\<close> is the component-wise mean of the histograms; the pool
  holds the bucket indices 0 to 3 and no others, index \<open>i\<close> exactly
  \<open>max 1 (nat \<lfloor>avg ! i * 2\<rfloor>)\<close> times, the doubled mean cut down to an integer, not
  rounded; a slot takes the bucket at a drawn position of the pool and tries from attempt 0;
  its fill is given up after exactly ten picks that were all in the set already, and
  otherwise adds the first pick that was not; each pick for bucket \<open>i\<close> lies between
  \<open>11 * i\<close> and \<open>min 43 (11 * i + 10)\<close>.
\<close>

theorem ranged_fill:
  "(i < 4 \<longrightarrow>
      avg_range dists ! i = of_nat (\<Sum>d\<leftarrow>dists. d ! i) / of_nat (length dists) \<and>
      count_list (ranges_to_pick avg) (int i) = max 1 (nat \<lfloor>avg ! i * 2\<rfloor>) \<and>
      11 * int i \<le> randint src p (int i * 11) (min max_number ((int i + 1) * 11 - 1)) \<and>
      randint src p (int i * 11) (min max_number ((int i + 1) * 11 - 1))
        \<le> min 43 (11 * int i + 10)) \<and>
   set (ranges_to_pick avg) = {0, 1, 2, 3} \<and>
   (card cs < 5 \<and> rtp \<noteq> [] \<longrightarrow>
      fill_ranges src p rtp (Suc k) cs =
        fill_ranges src
          (snd (try_range src (Suc p) (rtp ! (src p mod length rtp) * 11)
                  (min max_number ((rtp ! (src p mod length rtp) + 1) * 11 - 1)) 0 cs))
          rtp k
          (fst (try_range src (Suc p) (rtp ! (src p mod length rtp) * 11)
                  (min max_number ((rtp ! (src p mod length rtp) + 1) * 11 - 1)) 0 cs))) \<and>
   ((\<forall>t < 10. randint src (p + t) lo hi \<in> cs) \<longrightarrow>
      try_range src p lo hi 0 cs = (cs, p + 10)) \<and>
   (j < 10 \<and> (\<forall>t < j. randint src (p + t) lo hi \<in> cs) \<and> randint src (p + j) lo hi \<notin> cs \<longrightarrow>
      try_range src p lo hi 0 cs = (insert (randint src (p + j) lo hi) cs, p + j + 1))"
proof -
  have "try_range src p lo hi 0 cs = (cs, p + 10)"
    if "\<forall>t < 10. randint src (p + t) lo hi \<in> cs"
    using try_range_abandon[of 0 src p lo hi cs] that by simp
  moreover have "try_range src p lo hi 0 cs = (insert (randint src (p + j) lo hi) cs, p + j + 1)"
    if "j < 10 \<and> (\<forall>t < j. randint src (p + t) lo hi \<in> cs) \<and> randint src (p + j) lo hi \<notin> cs"
    using try_range_accept[of 0 j src p lo hi cs] that by simp
  ultimately show ?thesis
    using avg_range_nth[of i dists] ranges_to_pick_count[of i avg] bucket_pick_range[of i src p]
      ranges_to_pick_set[of avg] fill_ranges_step[of cs rtp src p k]
    by blast
qed

theorem ranged_fill_round_counterexample:
  "map_sum id range_distribution (analyze_patterns spec_example) = Inr spec_example_histograms \<and>
   avg_range spec_example_histograms ! 1 = 4 / 3 \<and>
   count_list (ranges_to_pick (avg_range spec_example_histograms)) 1 = 2 \<and>
   max 1 (nat (round (avg_range spec_example_histograms ! 1 * 2))) = 3"
  by code_simp

theorem ranged_fill_witness:
  "avg_range spec_example_histograms ! 1 = 4 / 3 \<and>
   count_list (ranges_to_pick (avg_range spec_example_histograms)) 1 = 2 \<and>
   try_range stuck_source 5 0 10 0 {0, 5} = ({0, 5}, 15) \<and>
   try_range counting_source 4 11 21 0 {5, 12, 23} = ({5, 12, 15, 23}, 5)"
proof -
  have h1: "\<forall>t < 10. randint stuck_source (5 + t) 0 10 \<in> {0, 5}"
    by (simp add: randint_def stuck_source_def)
  have h2: "(0 :: nat) < 10 \<and> (\<forall>t < 0. randint counting_source (4 + t) 11 21 \<in> {5, 12, 23}) \<and>
      randint counting_source (4 + 0) 11 21 \<notin> {5, 12, 23}"
    by (simp add: randint_def counting_source_def)
  have v: "randint counting_source (4 + 0) 11 21 = 15"
    by (simp add: randint_def counting_source_def)
  have c: "max 1 (nat \<lfloor>avg_range spec_example_histograms ! 1 * 2\<rfloor>) = 2"
    and s: "of_nat (\<Sum>d\<leftarrow>spec_example_histograms. d ! 1) / of_nat (length spec_example_histograms)
              = (4 / 3 :: rat)"
    by code_simp+
  have one: "(1 :: nat) < 4" by simp
  from ranged_fill[where i = 1 and dists = spec_example_histograms and
      avg = "avg_range spec_example_histograms" and src = stuck_source and p = 5 and
      cs = "{0, 5}" and lo = 0 and hi = 10] one h1
  have a: "avg_range spec_example_histograms ! 1 =
      of_nat (\<Sum>d\<leftarrow>spec_example_histograms. d ! 1) / of_nat (length spec_example_histograms)"
    and b: "count_list (ranges_to_pick (avg_range spec_example_histograms)) (int 1) =
      max 1 (nat \<lfloor>avg_range spec_example_histograms ! 1 * 2\<rfloor>)"
    and t: "try_range stuck_source 5 0 10 0 {0, 5} = ({0, 5}, 5 + 10)"
    by blast+
  from ranged_fill[where src = counting_source and p = 4 and cs = "{5, 12, 23}" and
      lo = 11 and hi = 21 and j = 0] h2
  have "try_range counting_source 4 11 21 0 {5, 12, 23} =
      (insert (randint counting_source (4 + 0) 11 21) {5, 12, 23}, 4 + 0 + 1)"
    by blast
  then have u: "try_range counting_source 4 11 21 0 {5, 12, 23} = ({5, 12, 15, 23}, 5)"
    unfolding v by (simp add: insert_commute)
  from a b t u show ?thesis unfolding c s by simp
qed

end
